theory Spec2Isabelle
  imports Complex_Main "HOL-Library.Word" "HOL-Library.Monad_Syntax"
begin

unbundle bit_operations_syntax

section \<open>Machine integers and intrinsics of rrr.c\<close>

type_synonym u8 = "8 word"
type_synonym u32 = "32 word"
type_synonym u64 = "64 word"

text \<open>
  A failed \<^verbatim>\<open>assert\<close>, a division by zero and an access outside a table or a bit
  vector end the C program. Every function of the model returns an \<open>option\<close>, and
  \<open>None\<close> stands for each of these ends.
\<close>

definition c_assert :: "bool \<Rightarrow> unit option" where
  "c_assert b = (if b then Some () else None)"

text \<open>
  \<^verbatim>\<open>x << n\<close> on a 64-bit operand (\<^verbatim>\<open>1ULL << n\<close>) and on an \<^verbatim>\<open>int\<close> operand (\<^verbatim>\<open>1 << n\<close>).
  ISO C leaves a shift by the width of the operand or more undefined. The shift
  instructions of x86-64 and AArch64 use the count modulo the width, and that is what
  the model does; for a count below the width it is the plain shift.
\<close>

definition shl64 :: "u64 \<Rightarrow> u64 \<Rightarrow> u64" where
  "shl64 x n = push_bit (unat n mod 64) x"

definition shl32 :: "u32 \<Rightarrow> u64 \<Rightarrow> u32" where
  "shl32 x n = push_bit (unat n mod 32) x"

text \<open>\<^verbatim>\<open>popcount\<close> (rrr.c:57): the number of 1-bits of a 64-bit word.\<close>

definition popcount :: "u64 \<Rightarrow> u64" where
  "popcount x = of_nat (length (filter (bit x) [0..<64]))"

text \<open>
  \<^verbatim>\<open>clz\<close> (rrr.c:69) and \<^verbatim>\<open>ctz\<close> (rrr.c:78): the compiler builtins. They are undefined at 0
  in C; the model counts all 64 bits there.
\<close>

definition clz :: "u64 \<Rightarrow> u64" where
  "clz x = of_nat (length (takeWhile (\<lambda>i. \<not> bit x i) (rev [0..<64])))"

definition ctz :: "u64 \<Rightarrow> u64" where
  "ctz x = of_nat (length (takeWhile (\<lambda>i. \<not> bit x i) [0..<64]))"

text \<open>\<^verbatim>\<open>nbits\<close> (rrr.c:88): the minimum number of bits needed to represent \<open>x\<close> values.\<close>

definition nbits :: "u64 \<Rightarrow> u64" where
  "nbits x = (if x < 2 then 0 else 64 - clz (x - 1))"

section \<open>The table of binomial coefficients\<close>

definition MAX_BLOCK_NBITS :: nat where
  "MAX_BLOCK_NBITS = 64"

text \<open>
  \<^verbatim>\<open>rrr_precompute_binomials\<close> (rrr.c:99): row \<open>n\<close> has \<open>n + 1\<close> entries, the first and the
  last are 1, and entry \<open>k\<close> between them is the sum of the entries \<open>k - 1\<close> and \<open>k\<close> of
  row \<open>n - 1\<close>, added as \<^verbatim>\<open>uint64_t\<close>. \<open>binomial_row prev n\<close> is the inner loop for row
  \<open>n\<close>, \<open>binomial_rows n\<close> the outer loop up to row \<open>n\<close>.
\<close>

definition binomial_row :: "u64 list \<Rightarrow> nat \<Rightarrow> u64 list" where
  "binomial_row prev n =
     (if n = 0 then [1] else 1 # map (\<lambda>k. prev ! (k - 1) + prev ! k) [1..<n] @ [1])"

primrec binomial_rows :: "nat \<Rightarrow> u64 list list" where
  "binomial_rows 0 = [binomial_row [] 0]"
| "binomial_rows (Suc n) =
     (let t = binomial_rows n in t @ [binomial_row (t ! n) (Suc n)])"

definition rrr_precompute_binomials :: "u64 list list" where
  "rrr_precompute_binomials = binomial_rows MAX_BLOCK_NBITS"

text \<open>
  \<^verbatim>\<open>binomial[n][k]\<close>, read after the table has been built (every instance comes from
  \<^verbatim>\<open>rrr_alloc\<close>, which builds it first). A read outside the table is \<open>None\<close>.
\<close>

definition binomial :: "u64 \<Rightarrow> u64 \<Rightarrow> u64 option" where
  "binomial n k =
     (if unat n < length rrr_precompute_binomials
         \<and> unat k < length (rrr_precompute_binomials ! unat n)
      then Some (rrr_precompute_binomials ! unat n ! unat k) else None)"

text \<open>\<^verbatim>\<open>offset_nbits\<close> (rrr.c:95).\<close>

definition offset_nbits :: "u64 \<Rightarrow> u64 \<Rightarrow> u64 option" where
  "offset_nbits block_nbits cls = map_option nbits (binomial block_nbits cls)"

section \<open>The block codec\<close>

text \<open>The loop of \<^verbatim>\<open>rrr_encode_block\<close> (rrr.c:153).\<close>

function encode_loop :: "u64 \<Rightarrow> u64 \<Rightarrow> u64 \<Rightarrow> u64 \<Rightarrow> u64 option" where
  "encode_loop v n cls offset =
     (if cls > 0 \<and> n \<ge> cls then
        (if v AND shl64 1 n \<noteq> 0 then
           do { b \<leftarrow> binomial n cls;
                encode_loop v (n - 1) (cls - 1) (offset + b) }
         else encode_loop v (n - 1) cls offset)
      else Some offset)"
  by pat_completeness auto
termination
proof (relation "measure (\<lambda>(v, n, cls, offset). unat n)", goal_cases)
  case 1
  show ?case by simp
next
  case (2 v n cls offset b)
  then show ?case by (cases "n = 0") (auto simp: unat_minus_one unat_gt_0)
next
  case (3 v n cls offset)
  then show ?case by (cases "n = 0") (auto simp: unat_minus_one unat_gt_0)
qed

declare encode_loop.simps [simp del]

text \<open>\<^verbatim>\<open>rrr_encode_block\<close> (rrr.c:116).\<close>

definition rrr_encode_block :: "u64 \<Rightarrow> u64 \<Rightarrow> u64 \<Rightarrow> u64 option" where
  "rrr_encode_block block_nbits cls v =
     do { c_assert (block_nbits > 0);
          c_assert (cls \<le> block_nbits);
          c_assert (cls = popcount v);
          if cls = 0 \<or> cls = block_nbits then Some 0
          else encode_loop v (if v = 0 then 0 else 63 - clz v) cls 0 }"

text \<open>
  The loop of \<^verbatim>\<open>rrr_decode_block\<close> (rrr.c:193); it returns the value generated so far
  and the number of 1-bits still to place.
\<close>

function decode_loop :: "u64 \<Rightarrow> u64 \<Rightarrow> u64 \<Rightarrow> u64 \<Rightarrow> (u64 \<times> u64) option" where
  "decode_loop v n cls offset =
     (if cls \<le> n \<and> n > 0 then
        do { b \<leftarrow> binomial n cls;
             if b \<le> offset
             then decode_loop (v OR shl64 1 n) (n - 1) (cls - 1) (offset - b)
             else decode_loop v (n - 1) cls offset }
      else Some (v, cls))"
  by pat_completeness auto
termination
proof (relation "measure (\<lambda>(v, n, cls, offset). unat n)", goal_cases)
  case 1
  show ?case by simp
next
  case (2 v n cls offset b)
  then show ?case by (cases "n = 0") (auto simp: unat_minus_one unat_gt_0)
next
  case (3 v n cls offset)
  then show ?case by (cases "n = 0") (auto simp: unat_minus_one unat_gt_0)
qed

declare decode_loop.simps [simp del]

text \<open>\<^verbatim>\<open>rrr_decode_block\<close> (rrr.c:163).\<close>

definition rrr_decode_block :: "u64 \<Rightarrow> u64 \<Rightarrow> u64 \<Rightarrow> u64 option" where
  "rrr_decode_block block_nbits cls offset =
     do { c_assert (block_nbits > 0);
          c_assert (cls \<le> block_nbits);
          b \<leftarrow> binomial block_nbits cls;
          c_assert (offset < b);
          (v, cls') \<leftarrow> decode_loop 0 (block_nbits - 1) cls offset;
          Some (if cls' > 0 then v OR (shl64 1 cls' - 1) else v) }"

section \<open>The packed bit vector\<close>

text \<open>
  The bit vector of \<^verbatim>\<open>bit_vector.h\<close>: a length in bits, a record width and the bits. The
  bits are kept as a list, bit 0 first; the length of the list is the field \<^verbatim>\<open>size\<close>.
\<close>

record bit_vector_t =
  record_nbits :: nat
  bv_data :: "bool list"

abbreviation bv_size :: "bit_vector_t \<Rightarrow> nat" where
  "bv_size b \<equiv> length (bv_data b)"

text \<open>
  Modelled from the spec: \<^verbatim>\<open>bit_vector_alloc\<close> and \<^verbatim>\<open>bit_vector_alloc_record\<close>, whose source is
  not part of rrr.c. Allocation with a given bit length, or with a record width and a
  record count; the fresh vector holds zeros.
\<close>

definition bit_vector_alloc :: "nat \<Rightarrow> bit_vector_t" where
  "bit_vector_alloc n = \<lparr>record_nbits = 0, bv_data = replicate n False\<rparr>"

definition bit_vector_alloc_record :: "nat \<Rightarrow> nat \<Rightarrow> bit_vector_t" where
  "bit_vector_alloc_record w n = \<lparr>record_nbits = w, bv_data = replicate (w * n) False\<rparr>"

text \<open>
  Modelled from the spec: \<^verbatim>\<open>bit_vector_read\<close>, the integer of up to 64 bits made of the
  \<open>width\<close> bits from bit \<open>i\<close> on, the bit at \<open>i\<close> being its least significant bit (the queries
  of rrr.c take bit \<open>i mod u\<close> of a block for bit \<open>i\<close> of the input). Bits beyond the
  end read as zero, as the right-padded last block of the spec requires; a read that
  starts beyond the end is outside the vector.
\<close>

definition bit_vector_read :: "bit_vector_t \<Rightarrow> nat \<Rightarrow> nat \<Rightarrow> u64 option" where
  "bit_vector_read b i width =
     (if i \<le> bv_size b \<and> width \<le> 64
      then Some (horner_sum of_bool 2 (take width (drop i (bv_data b))))
      else None)"

text \<open>
  Modelled from the spec: \<^verbatim>\<open>bit_vector_write\<close> stores the low \<open>width\<close> bits of the value
  from bit \<open>i\<close> on and returns the new bit offset.
\<close>

definition bit_vector_write ::
  "bit_vector_t \<Rightarrow> nat \<Rightarrow> nat \<Rightarrow> u64 \<Rightarrow> (bit_vector_t \<times> nat) option" where
  "bit_vector_write b i width v =
     (if i + width \<le> bv_size b \<and> width \<le> 64
      then Some (b\<lparr>bv_data := take i (bv_data b) @ map (bit v) [0..<width]
                                 @ drop (i + width) (bv_data b)\<rparr>, i + width)
      else None)"

text \<open>
  Modelled from the spec: \<^verbatim>\<open>bit_vector_read_record\<close> and \<^verbatim>\<open>bit_vector_write_record\<close>
  address the vector as an array of fields of \<^verbatim>\<open>record_nbits\<close> bits. The write returns the
  index of the next record, which is how \<^verbatim>\<open>rrr_alloc\<close> uses its result.
\<close>

definition bit_vector_read_record :: "bit_vector_t \<Rightarrow> nat \<Rightarrow> u64 option" where
  "bit_vector_read_record b i = bit_vector_read b (i * record_nbits b) (record_nbits b)"

definition bit_vector_write_record ::
  "bit_vector_t \<Rightarrow> nat \<Rightarrow> u64 \<Rightarrow> (bit_vector_t \<times> nat) option" where
  "bit_vector_write_record b i v =
     map_option (\<lambda>(b', _). (b', i + 1))
       (bit_vector_write b (i * record_nbits b) (record_nbits b) v)"

text \<open>Modelled from the spec: \<^verbatim>\<open>bit_vector_resize\<close>, used to truncate.\<close>

definition bit_vector_resize :: "bit_vector_t \<Rightarrow> nat \<Rightarrow> bit_vector_t" where
  "bit_vector_resize b n =
     b\<lparr>bv_data := take n (bv_data b) @ replicate (n - bv_size b) False\<rparr>"

section \<open>The RRR instance and its construction\<close>

text \<open>
  The struct \<^verbatim>\<open>rrr_t\<close> is declared in \<^verbatim>\<open>rrr.h\<close>; rrr.c reads and writes the fields below.
  The widths of the scalar fields are not visible in rrr.c, so they are natural numbers
  here; the theorems about built instances bound the size of the input.
\<close>

record rrr_t =
  rrr_size :: nat
  rrr_rank :: nat
  nblocks :: nat
  nmarkers :: nat
  block_nbits :: nat
  marker_nbits :: nat
  classes :: bit_vector_t
  offsets :: bit_vector_t
  marked_ranks :: bit_vector_t
  marked_offsets :: bit_vector_t

text \<open>
  The local variables of \<^verbatim>\<open>rrr_alloc\<close> that its loop updates, next to the instance. The
  positions \<^verbatim>\<open>class_at\<close>, \<^verbatim>\<open>offset_at\<close> and \<^verbatim>\<open>marker_at\<close> only count upwards, bounded by
  the sizes of the vectors they index, and are natural numbers.
\<close>

record alloc_state =
  st_rrr :: rrr_t
  st_class_at :: nat
  st_offset_at :: nat
  st_marker_at :: nat
  st_marker_need :: u64

text \<open>The body of the loop of \<^verbatim>\<open>rrr_alloc\<close> (rrr.c:275-303) for block \<open>k\<close>.\<close>

definition alloc_step :: "bit_vector_t \<Rightarrow> u64 \<Rightarrow> u64 \<Rightarrow> nat \<Rightarrow> alloc_state \<Rightarrow> alloc_state option" where
  "alloc_step bits u s k st =
     do { let r = st_rrr st;
          block \<leftarrow> bit_vector_read_record bits k;
          let cls = popcount block;
          offset \<leftarrow> rrr_encode_block u cls block;
          (classes', class_at') \<leftarrow> bit_vector_write_record (classes r) (st_class_at st) cls;
          width \<leftarrow> offset_nbits u cls;
          (offsets', offset_at') \<leftarrow> bit_vector_write (offsets r) (st_offset_at st) (unat width) offset;
          let marker_extra = u - st_marker_need st;
          if 0 \<le> sint marker_extra then
            do { let want = u - marker_extra;
                 let prefix = (if want \<ge> 64 then block else block AND (shl64 1 want - 1));
                 (marked_offsets', _) \<leftarrow>
                    bit_vector_write_record (marked_offsets r) (st_marker_at st) (of_nat offset_at');
                 (marked_ranks', _) \<leftarrow>
                    bit_vector_write_record (marked_ranks r) (st_marker_at st)
                      (of_nat (rrr_rank r) + popcount prefix);
                 Some \<lparr>st_rrr = r\<lparr>rrr_rank := rrr_rank r + unat cls, classes := classes',
                               offsets := offsets', marked_ranks := marked_ranks',
                               marked_offsets := marked_offsets'\<rparr>,
                       st_class_at = class_at', st_offset_at = offset_at',
                       st_marker_at = st_marker_at st + 1, st_marker_need = s - marker_extra\<rparr> }
          else
            Some \<lparr>st_rrr = r\<lparr>rrr_rank := rrr_rank r + unat cls, classes := classes',
                          offsets := offsets'\<rparr>,
                  st_class_at = class_at', st_offset_at = offset_at',
                  st_marker_at = st_marker_at st, st_marker_need = st_marker_need st - u\<rparr> }"

text \<open>The loop of \<^verbatim>\<open>rrr_alloc\<close> (rrr.c:274), from block \<open>k\<close> up to \<open>nb\<close> blocks.\<close>

function alloc_loop ::
  "bit_vector_t \<Rightarrow> u64 \<Rightarrow> u64 \<Rightarrow> nat \<Rightarrow> nat \<Rightarrow> alloc_state \<Rightarrow> alloc_state option" where
  "alloc_loop bits u s nb k st =
     (if k < nb then
        do { st' \<leftarrow> alloc_step bits u s k st;
             alloc_loop bits u s nb (k + 1) st' }
      else Some st)"
  by pat_completeness auto
termination
  by (relation "measure (\<lambda>(bits, u, s, nb, k, st). nb - k)") auto

declare alloc_loop.simps [simp del]

text \<open>
  \<^verbatim>\<open>rrr_alloc\<close> (rrr.c:231). It returns the instance and the input vector as the call
  leaves it. A block width of 0 divides by zero at the computation of \<^verbatim>\<open>nblocks\<close>.
\<close>

definition rrr_alloc :: "bit_vector_t \<Rightarrow> u8 \<Rightarrow> u8 \<Rightarrow> (rrr_t \<times> bit_vector_t) option" where
  "rrr_alloc bits blk mrk =
     do { c_assert (bv_size bits > 0);
          c_assert (unat blk \<le> MAX_BLOCK_NBITS);
          c_assert (blk \<le> mrk);
          c_assert (blk \<noteq> 0);
          let u = unat blk;
          let s = unat mrk;
          let nb = (bv_size bits + u - 1) div u;
          let nm = (bv_size bits + s - 1) div s;
          offset_nbits_max \<leftarrow> offset_nbits (of_nat u) (of_nat (u div 2));
          let cs = bit_vector_alloc_record (unat (nbits (of_nat u + 1))) nb;
          let os = bit_vector_alloc (nb * unat offset_nbits_max);
          let mr = bit_vector_alloc_record (unat (nbits (of_nat (bv_size bits) + 1))) nm;
          let mo = bit_vector_alloc_record (unat (nbits (of_nat (bv_size os)))) nm;
          let r = \<lparr>rrr_size = bv_size bits, rrr_rank = 0, nblocks = nb, nmarkers = nm,
                   block_nbits = u, marker_nbits = s, classes = cs, offsets = os,
                   marked_ranks = mr, marked_offsets = mo\<rparr>;
          let orig_record_nbits = record_nbits bits;
          let bits1 = bits\<lparr>record_nbits := u\<rparr>;
          st \<leftarrow> alloc_loop bits1 (of_nat u) (of_nat s) nb 0
                  \<lparr>st_rrr = r, st_class_at = 0, st_offset_at = 0, st_marker_at = 0,
                   st_marker_need = of_nat s\<rparr>;
          let bits2 = bits1\<lparr>record_nbits := orig_record_nbits\<rparr>;
          let r' = st_rrr st;
          Some (r'\<lparr>offsets := bit_vector_resize (offsets r') (st_offset_at st)\<rparr>, bits2) }"

section \<open>Queries\<close>

text \<open>Unsigned division and right shift of C; dividing by zero ends the program.\<close>

definition c_div :: "u64 \<Rightarrow> u64 \<Rightarrow> u64 option" where
  "c_div a b = (if b = 0 then None else Some (a div b))"

definition shr64 :: "u64 \<Rightarrow> u64 \<Rightarrow> u64" where
  "shr64 x n = drop_bit (unat n mod 64) x"

text \<open>
  The jump to the nearest marker at the head of \<^verbatim>\<open>rrr_access\<close> (rrr.c:322-330) and of
  \<^verbatim>\<open>rrr_rank1\<close> (rrr.c:365-375): the block index, the offset position and the rank to
  start from.
\<close>

definition marker_jump :: "rrr_t \<Rightarrow> u64 \<Rightarrow> (u64 \<times> u64 \<times> u64) option" where
  "marker_jump r marker_at =
     (if marker_at \<le> 0 then Some (0, 0, 0)
      else do { class_at \<leftarrow>
                   c_div (marker_at * of_nat (marker_nbits r)) (of_nat (block_nbits r));
                offset_at \<leftarrow> bit_vector_read_record (marked_offsets r) (unat (marker_at - 1));
                rank \<leftarrow> bit_vector_read_record (marked_ranks r) (unat (marker_at - 1));
                Some (class_at, offset_at, rank) })"

text \<open>
  The loop that moves forward one block at a time (rrr.c:333 and rrr.c:378); the
  rank it accumulates is the one \<^verbatim>\<open>rrr_rank1\<close> uses. With a block width of 0 the loop
  of the source does not end.
\<close>

partial_function (option) forward_loop ::
  "rrr_t \<Rightarrow> u64 \<Rightarrow> u64 \<Rightarrow> u64 \<Rightarrow> u64 \<Rightarrow> (u64 \<times> u64 \<times> u64 \<times> u64) option" where
  "forward_loop r i class_at offset_at rank =
     (if i \<ge> of_nat (block_nbits r) then
        do { cls \<leftarrow> bit_vector_read_record (classes r) (unat class_at);
             width \<leftarrow> offset_nbits (of_nat (block_nbits r)) cls;
             forward_loop r (i - of_nat (block_nbits r)) (class_at + 1) (offset_at + width)
               (rank + cls) }
      else Some (i, class_at, offset_at, rank))"

declare forward_loop.simps [code]

text \<open>
  \<^verbatim>\<open>rrr_access\<close> (rrr.c:314). The mask \<^verbatim>\<open>1 << i\<close> is an \<^verbatim>\<open>int\<close>, widened with its sign to
  64 bits for the \<^verbatim>\<open>&\<close>; the result is returned as \<^verbatim>\<open>uint8_t\<close>.
\<close>

definition rrr_access :: "rrr_t \<Rightarrow> u64 \<Rightarrow> u8 option" where
  "rrr_access r i =
     do { c_assert (i < of_nat (rrr_size r));
          marker_at \<leftarrow> c_div i (of_nat (marker_nbits r));
          (class_at, offset_at, _) \<leftarrow> marker_jump r marker_at;
          (i', class_at', offset_at', _) \<leftarrow>
             forward_loop r (i - class_at * of_nat (block_nbits r)) class_at offset_at 0;
          cls \<leftarrow> bit_vector_read_record (classes r) (unat class_at');
          width \<leftarrow> offset_nbits (of_nat (block_nbits r)) cls;
          offset \<leftarrow> bit_vector_read (offsets r) (unat offset_at') (unat width);
          block \<leftarrow> rrr_decode_block (of_nat (block_nbits r)) cls offset;
          Some (ucast (shr64 (block AND scast (shl32 1 i')) i')) }"

text \<open>\<^verbatim>\<open>rrr_rank1\<close> (rrr.c:355).\<close>

definition rrr_rank1 :: "rrr_t \<Rightarrow> u64 \<Rightarrow> u32 option" where
  "rrr_rank1 r i =
     (if i \<ge> of_nat (rrr_size r) then Some (of_nat (rrr_rank r))
      else
        do { marker_at \<leftarrow> c_div i (of_nat (marker_nbits r));
             (class_at, offset_at, rank) \<leftarrow> marker_jump r marker_at;
             (i', class_at', offset_at', rank') \<leftarrow>
                forward_loop r (i - class_at * of_nat (block_nbits r)) class_at offset_at rank;
             cls \<leftarrow> bit_vector_read_record (classes r) (unat class_at');
             width \<leftarrow> offset_nbits (of_nat (block_nbits r)) cls;
             offset \<leftarrow> bit_vector_read (offsets r) (unat offset_at') (unat width);
             block \<leftarrow> rrr_decode_block (of_nat (block_nbits r)) cls offset;
             let mask = shl64 1 i' - 1;
             Some (ucast (rank' + popcount (block AND mask))) })"

text \<open>\<^verbatim>\<open>rrr_rank0\<close> (rrr.c:350): the difference is 64 bits wide and returned as \<^verbatim>\<open>uint32_t\<close>.\<close>

definition rrr_rank0 :: "rrr_t \<Rightarrow> u64 \<Rightarrow> u32 option" where
  "rrr_rank0 r i = do { r1 \<leftarrow> rrr_rank1 r i; Some (ucast (i - ucast r1)) }"

text \<open>
  The binary search of \<^verbatim>\<open>rrr_find_marker\<close> (rrr.c:416-426). Its condition assigns
  \<^verbatim>\<open>k = lo + (hi - lo) / 2\<close> before it compares \<^verbatim>\<open>lo <= hi\<close>, also on the last evaluation.
  The result is \<^verbatim>\<open>k\<close>, \<^verbatim>\<open>_k\<close> and the rank read last.
\<close>

partial_function (option) find_marker_loop ::
  "rrr_t \<Rightarrow> u64 \<Rightarrow> u64 \<Rightarrow> u64 \<Rightarrow> u64 \<Rightarrow> u64 \<Rightarrow> (u64 \<times> u64 \<times> u64) option" where
  "find_marker_loop r j lo hi k' rank =
     (let k = lo + (hi - lo) div 2 in
      if lo \<le> hi then
        do { rank' \<leftarrow> bit_vector_read_record (marked_ranks r) (unat k);
             if rank' < j then find_marker_loop r j (k + 1) hi k rank'
             else if j < rank' then find_marker_loop r j lo (k - 1) k' rank'
             else Some (k, k', rank') }
      else Some (k, k', rank))"

declare find_marker_loop.simps [code]

text \<open>
  \<^verbatim>\<open>rrr_find_marker\<close> (rrr.c:404). \<^verbatim>\<open>rank\<close> has no value before the loop; the loop runs at
  least once, since \<^verbatim>\<open>lo = 0\<close> is not above any unsigned \<^verbatim>\<open>hi\<close>, so the 0 given here is
  never read.
\<close>

definition rrr_find_marker :: "rrr_t \<Rightarrow> u64 \<Rightarrow> u64 option" where
  "rrr_find_marker r j =
     do { c_assert (j \<le> of_nat (rrr_rank r));
          if rrr_size r \<le> marker_nbits r then Some 0
          else
            do { r0 \<leftarrow> bit_vector_read_record (marked_ranks r) 0;
                 if j < r0 then Some 0
                 else
                   do { (k, k', rank) \<leftarrow>
                           find_marker_loop r j 0 (of_nat (nmarkers r) - 1) (- 1) 0;
                        Some ((if j \<le> rank then k' else k) + 1) } } }"

text \<open>
  The scan of \<^verbatim>\<open>rrr_select1\<close> past whole blocks (rrr.c:455-464). \<^verbatim>\<open>class\<close> and \<^verbatim>\<open>width\<close>
  have no value until the body has run once: \<open>None\<close> in the last component.
\<close>

function select_scan ::
  "rrr_t \<Rightarrow> u64 \<Rightarrow> u64 \<Rightarrow> u64 \<Rightarrow> u64 \<Rightarrow> (u64 \<times> u64) option
     \<Rightarrow> (u64 \<times> u64 \<times> u64 \<times> (u64 \<times> u64) option) option" where
  "select_scan r j class_at offset_at rank seen =
     (if class_at < of_nat (nblocks r) then
        do { cls \<leftarrow> bit_vector_read_record (classes r) (unat class_at);
             width \<leftarrow> offset_nbits (of_nat (block_nbits r)) cls;
             if rank + cls \<ge> j then Some (class_at, offset_at, rank, Some (cls, width))
             else select_scan r j (class_at + 1) (offset_at + width) (rank + cls)
                    (Some (cls, width)) }
      else Some (class_at, offset_at, rank, seen))"
  by pat_completeness auto
termination
proof (relation "measure (\<lambda>(r, j, class_at, offset_at, rank, seen).
         unat (of_nat (nblocks r) - class_at :: u64))", goal_cases)
  case 1
  show ?case by simp
next
  case (2 r j class_at offset_at rank seen cls width)
  from 2(1) have "of_nat (nblocks r) - class_at \<noteq> (0 :: u64)"
    by auto
  then have "unat (of_nat (nblocks r) - class_at - 1 :: u64)
      < unat (of_nat (nblocks r) - class_at :: u64)"
    by (simp add: unat_minus_one unat_gt_0)
  then show ?case
    by (simp add: diff_diff_eq)
qed

declare select_scan.simps [simp del]

text \<open>The loop that locates the 1-bit inside the block (rrr.c:473).\<close>

function select_bits :: "u64 \<Rightarrow> u64 \<Rightarrow> u64 \<Rightarrow> u64 \<Rightarrow> u64" where
  "select_bits j rank block i =
     (if rank < j then
        (let i' = ctz block in select_bits j (rank + 1) (block AND NOT (shl64 1 i')) i')
      else i)"
  by pat_completeness auto
termination
proof (relation "measure (\<lambda>(j, rank, block, i). unat (j - rank))", goal_cases)
  case 1
  show ?case by simp
next
  case (2 j rank block i i')
  then have "j - rank \<noteq> 0"
    by auto
  then have "unat (j - rank - 1) < unat (j - rank)"
    by (simp add: unat_minus_one unat_gt_0)
  then show ?case
    by (simp add: diff_diff_eq)
qed

declare select_bits.simps [simp del]

text \<open>\<^verbatim>\<open>rrr_select1\<close> (rrr.c:434).\<close>

definition rrr_select1 :: "rrr_t \<Rightarrow> u64 \<Rightarrow> u32 option" where
  "rrr_select1 r j =
     (if j > of_nat (rrr_rank r) then Some 0
      else
        do { marker_at \<leftarrow> rrr_find_marker r j;
             class_at \<leftarrow> c_div (marker_at * of_nat (marker_nbits r)) (of_nat (block_nbits r));
             (offset_at, rank) \<leftarrow>
                (if marker_at \<le> 0 then Some (0, 0)
                 else do { offset_at \<leftarrow>
                              bit_vector_read_record (marked_offsets r) (unat (marker_at - 1));
                           rank \<leftarrow>
                              bit_vector_read_record (marked_ranks r) (unat (marker_at - 1));
                           Some (offset_at, rank) });
             (class_at', offset_at', rank', seen) \<leftarrow> select_scan r j class_at offset_at rank None;
             (cls, width) \<leftarrow> seen;
             offset \<leftarrow> bit_vector_read (offsets r) (unat offset_at') (unat width);
             block \<leftarrow> rrr_decode_block (of_nat (block_nbits r)) cls offset;
             c_assert (j - rank' \<le> popcount block);
             let i = select_bits j rank' block (- 1);
             Some (ucast (1 + i + class_at' * of_nat (block_nbits r))) })"

section \<open>Concrete inputs\<close>

text \<open>Scenario S1 of the specification: the bits 11010010, bit 0 written first.\<close>

definition S1_bits :: bit_vector_t where
  "S1_bits = \<lparr>record_nbits = 0,
     bv_data = [True, True, False, True, False, False, True, False]\<rparr>"

text \<open>Inputs on which the queries are run below.\<close>

definition unaligned_bits :: bit_vector_t where
  "unaligned_bits = \<lparr>record_nbits = 0,
     bv_data = [False, True, True, False, False, True]\<rparr>"

definition ones6_bits :: bit_vector_t where
  "ones6_bits = \<lparr>record_nbits = 0, bv_data = replicate 6 True\<rparr>"

definition search_bits :: bit_vector_t where
  "search_bits = \<lparr>record_nbits = 0,
     bv_data = [True, False, True, True, True, False]\<rparr>"

definition ones5_bits :: bit_vector_t where
  "ones5_bits = \<lparr>record_nbits = 0, bv_data = replicate 5 True\<rparr>"

definition zero1_bits :: bit_vector_t where
  "zero1_bits = \<lparr>record_nbits = 0, bv_data = [False]\<rparr>"


section \<open>Invariants of the construction\<close>

text \<open>
  The definitions of this section are not part of rrr.c: they state what the proofs
  about \<^verbatim>\<open>rrr_alloc\<close> maintain. \<open>bv_put\<close> is the vector that a write within bounds
  leaves behind.
\<close>

definition bv_put :: "bit_vector_t \<Rightarrow> nat \<Rightarrow> nat \<Rightarrow> u64 \<Rightarrow> bit_vector_t" where
  "bv_put b i w v =
     b\<lparr>bv_data := take i (bv_data b) @ map (bit v) [0..<w] @ drop (i + w) (bv_data b)\<rparr>"

text \<open>The scalar fields and the dimensions of the four vectors agree with those of \<open>r0\<close>.\<close>

definition same_shape :: "rrr_t \<Rightarrow> rrr_t \<Rightarrow> bool" where
  "same_shape r r0 \<longleftrightarrow>
     rrr_size r = rrr_size r0 \<and> nblocks r = nblocks r0 \<and> nmarkers r = nmarkers r0
   \<and> block_nbits r = block_nbits r0 \<and> marker_nbits r = marker_nbits r0
   \<and> bv_size (classes r) = bv_size (classes r0)
   \<and> record_nbits (classes r) = record_nbits (classes r0)
   \<and> bv_size (offsets r) = bv_size (offsets r0)
   \<and> bv_size (marked_ranks r) = bv_size (marked_ranks r0)
   \<and> record_nbits (marked_ranks r) = record_nbits (marked_ranks r0)
   \<and> bv_size (marked_offsets r) = bv_size (marked_offsets r0)
   \<and> record_nbits (marked_offsets r) = record_nbits (marked_offsets r0)"

text \<open>
  What \<^verbatim>\<open>rrr_alloc\<close> has set up when its loop starts: the widths, the input read in
  records of \<open>u\<close> bits, and the dimensions of the vectors of the fresh instance \<open>r0\<close>.
\<close>

definition alloc_setup :: "bit_vector_t \<Rightarrow> u64 \<Rightarrow> u64 \<Rightarrow> nat \<Rightarrow> rrr_t \<Rightarrow> bool" where
  "alloc_setup bits u s wmax r0 \<longleftrightarrow>
     1 \<le> unat u \<and> unat u \<le> 64 \<and> unat u \<le> unat s \<and> unat s \<le> 255
   \<and> record_nbits bits = unat u \<and> 0 < bv_size bits
   \<and> nblocks r0 = (bv_size bits + unat u - 1) div unat u
   \<and> nmarkers r0 = (bv_size bits + unat s - 1) div unat s
   \<and> bv_size (classes r0) = record_nbits (classes r0) * nblocks r0
   \<and> record_nbits (classes r0) \<le> 64
   \<and> bv_size (offsets r0) = nblocks r0 * wmax
   \<and> map_option (unat \<circ> nbits) (binomial u (of_nat (unat u div 2))) = Some wmax
   \<and> bv_size (marked_ranks r0) = record_nbits (marked_ranks r0) * nmarkers r0
   \<and> record_nbits (marked_ranks r0) \<le> 64
   \<and> bv_size (marked_offsets r0) = record_nbits (marked_offsets r0) * nmarkers r0
   \<and> record_nbits (marked_offsets r0) \<le> 64"

text \<open>
  The state of the loop before block \<open>k\<close>: the positions are within the vectors,
  \<^verbatim>\<open>marker_need\<close> is the distance from the start of block \<open>k\<close> to the next marker
  boundary, and the rank counts the 1-bits of the blocks read so far.
\<close>

definition alloc_inv ::
  "bit_vector_t \<Rightarrow> nat \<Rightarrow> nat \<Rightarrow> nat \<Rightarrow> rrr_t \<Rightarrow> nat \<Rightarrow> alloc_state \<Rightarrow> bool" where
  "alloc_inv bits U S wmax r0 k st \<longleftrightarrow>
     same_shape (st_rrr st) r0 \<and> st_class_at st = k \<and> st_offset_at st \<le> k * wmax
   \<and> 1 \<le> unat (st_marker_need st) \<and> unat (st_marker_need st) \<le> S
   \<and> (st_marker_at st + 1) * S = k * U + unat (st_marker_need st)
   \<and> rrr_rank (st_rrr st) = length (filter id (take (k * U) (bv_data bits)))"

text \<open>
  Once block 0 has been written, its class and the low bits of its offset stay where
  they are.
\<close>

definition first_block_inv :: "bit_vector_t \<Rightarrow> u64 \<Rightarrow> nat \<Rightarrow> alloc_state \<Rightarrow> bool" where
  "first_block_inv bits u k st \<longleftrightarrow>
     k = 0 \<or>
     (\<exists>block off w.
        bit_vector_read_record bits 0 = Some block
      \<and> rrr_encode_block u (popcount block) block = Some off
      \<and> offset_nbits u (popcount block) = Some w
      \<and> unat w \<le> st_offset_at st
      \<and> bit_vector_read_record (classes (st_rrr st)) 0
          = Some (take_bit (record_nbits (classes (st_rrr st))) (popcount block))
      \<and> bit_vector_read (offsets (st_rrr st)) 0 (unat w) = Some (take_bit (unat w) off))"

section \<open>The binomial table holds the binomial coefficients\<close>

lemma length_binomial_rows: "length (binomial_rows n) = Suc n"
  by (induction n) (simp_all add: Let_def)

lemma binomial_row_choose:
  assumes "n > 0" and prev: "prev = map (\<lambda>k. of_nat ((n - 1) choose k)) [0..<n]"
  shows "binomial_row prev n = map (\<lambda>k. of_nat (n choose k)) [0..<Suc n]"
proof (rule nth_equalityI)
  show "length (binomial_row prev n) = length (map (\<lambda>k. of_nat (n choose k) :: u64) [0..<Suc n])"
    using assms by (simp add: binomial_row_def)
next
  fix i assume "i < length (binomial_row prev n)"
  then have i: "i \<le> n"
    using assms by (simp add: binomial_row_def split: if_splits)
  obtain m where n: "n = Suc m"
    using \<open>n > 0\<close> by (cases n) auto
  consider "i = 0" | "i = n" "i \<noteq> 0" | j where "i = Suc j" "j < m"
    using i n by (cases i) (auto simp: less_Suc_eq_le le_less)
  then show "binomial_row prev n ! i = map (\<lambda>k. of_nat (n choose k)) [0..<Suc n] ! i"
  proof cases
    case 1
    then show ?thesis using assms
      by (simp add: binomial_row_def nth_append nth_Cons' del: upt_Suc)
  next
    case 2
    then show ?thesis using assms n
      by (simp add: binomial_row_def nth_append nth_Cons' del: upt_Suc)
  next
    case 3
    then show ?thesis using n prev
      by (simp add: binomial_row_def nth_append nth_Cons' del: upt_Suc)
  qed
qed

lemma binomial_rows_nth:
  "m \<le> n \<Longrightarrow> binomial_rows n ! m = map (\<lambda>k. of_nat (m choose k)) [0..<Suc m]"
proof (induction n arbitrary: m)
  case 0
  then show ?case by (simp add: binomial_row_def)
next
  case (Suc n)
  show ?case
  proof (cases "m \<le> n")
    case True
    then show ?thesis
      using Suc.IH [of m] by (simp add: Let_def nth_append length_binomial_rows del: upt_Suc)
  next
    case False
    with Suc.prems have m: "m = Suc n" by simp
    have "binomial_row (binomial_rows n ! n) (Suc n)
        = map (\<lambda>k. of_nat (Suc n choose k)) [0..<Suc (Suc n)]"
      by (rule binomial_row_choose) (simp_all add: Suc.IH del: upt_Suc)
    then show ?thesis
      using m by (simp add: Let_def nth_append length_binomial_rows del: upt_Suc)
  qed
qed

text \<open>
  The table is looked up through this equation from here on, also when a term is
  evaluated.
\<close>

lemma binomial_eq:
  "binomial n k =
     (if unat n \<le> 64 \<and> unat k \<le> unat n then Some (of_nat (unat n choose unat k)) else None)"
  by (auto simp: binomial_def rrr_precompute_binomials_def MAX_BLOCK_NBITS_def
      length_binomial_rows binomial_rows_nth simp del: upt_Suc)

declare binomial_eq [code]


section \<open>Bounds on the binomial coefficients\<close>

lemma binomial_less_pow2: "0 < n \<Longrightarrow> n choose k < 2 ^ n"
proof (induction n arbitrary: k)
  case 0
  then show ?case by simp
next
  case (Suc n)
  show ?case
  proof (cases k)
    case 0
    have "Suc 0 < 2 * 2 ^ n"
      using one_le_power [of "2::nat" n] by linarith
    then show ?thesis using 0 by simp
  next
    case (Suc j)
    show ?thesis
    proof (cases "n = 0")
      case True
      then show ?thesis using Suc by (cases j) simp_all
    next
      case False
      then have "n choose j < 2 ^ n" "n choose Suc j < 2 ^ n"
        using Suc.IH by simp_all
      then show ?thesis using Suc by simp
    qed
  qed
qed

lemma binomial_less_2p64: "n \<le> 64 \<Longrightarrow> n choose k < 2 ^ 64"
proof (cases "n = 0")
  case True
  then show ?thesis by (cases k) simp_all
next
  case False
  assume "n \<le> 64"
  have "n choose k < 2 ^ n"
    using False by (simp add: binomial_less_pow2)
  also have "(2::nat) ^ n \<le> 2 ^ 64"
    using \<open>n \<le> 64\<close> by (intro power_increasing) simp_all
  finally show ?thesis .
qed

lemma binomial_mono_upper: "n \<le> m \<Longrightarrow> n choose k \<le> m choose k"
proof (induction m)
  case 0
  then show ?case by simp
next
  case (Suc m)
  show ?case
  proof (cases "n = Suc m")
    case True
    then show ?thesis by simp
  next
    case False
    with Suc have "n choose k \<le> m choose k" by simp
    also have "\<dots> \<le> Suc m choose k"
      by (cases k) simp_all
    finally show ?thesis .
  qed
qed

lemma unat_binomial:
  assumes "unat n \<le> 64" "unat k \<le> unat n" "binomial n k = Some b"
  shows "unat b = unat n choose unat k"
proof -
  have "b = of_nat (unat n choose unat k)"
    using assms by (simp add: binomial_eq)
  then show ?thesis
    using binomial_less_2p64 [OF assms(1), of "unat k"] by (simp add: unat_of_nat)
qed

section \<open>The intrinsics\<close>

lemma unat_popcount: "unat (popcount x) = length (filter (bit x) [0..<64])"
proof -
  have "length (filter (bit x) [0..<64]) \<le> length [0..<64::nat]"
    by (rule length_filter_le)
  then have "length (filter (bit x) [0..<64]) < 2 ^ 64"
    by simp
  then show ?thesis
    by (simp add: popcount_def unat_of_nat)
qed

lemma bit_above_bound:
  fixes x :: u64
  assumes "unat x < 2 ^ m" "m \<le> i"
  shows "\<not> bit x i"
proof -
  have "take_bit m (unat x) = unat x"
    using assms(1) by (simp add: take_bit_nat_eq_self)
  then have "bit (unat x) i \<longleftrightarrow> bit (take_bit m (unat x)) i"
    by simp
  also have "\<dots> \<longleftrightarrow> False"
    using assms(2) by (simp add: bit_take_bit_iff)
  finally show ?thesis
    by (simp add: bit_unsigned_iff)
qed

lemma filter_bit_upt_zero:
  fixes x :: u64
  assumes "\<And>i. m \<le> i \<Longrightarrow> i < n \<Longrightarrow> \<not> bit x i" "m \<le> n"
  shows "filter (bit x) [0..<n] = filter (bit x) [0..<m]"
proof -
  have "[0..<n] = [0..<m] @ [m..<n]"
    using assms(2) by (metis le_add_diff_inverse upt_add_eq_append zero_le)
  moreover have "filter (bit x) [m..<n] = []"
    using assms(1) by (auto simp: filter_empty_conv)
  ultimately show ?thesis by simp
qed

lemma filter_bit_upt_high:
  fixes x :: u64
  assumes "unat x < 2 ^ m" "m \<le> n"
  shows "filter (bit x) [0..<n] = filter (bit x) [0..<m]"
  using assms by (intro filter_bit_upt_zero bit_above_bound)

lemma clz_msb:
  fixes x :: u64
  assumes "x \<noteq> 0"
  shows "unat (clz x) \<le> 63"
    and "bit x (63 - unat (clz x))"
    and "\<And>i. 63 - unat (clz x) < i \<Longrightarrow> \<not> bit x i"
proof -
  define P where "P = (\<lambda>i. \<not> bit x i)"
  define xs where "xs = rev [0..<64::nat]"
  define l where "l = length (takeWhile P xs)"
  have len: "length xs = 64"
    by (simp add: xs_def)
  have nth: "xs ! j = 63 - j" if "j < 64" for j
    using that by (simp add: xs_def rev_nth)
  have ex: "\<exists>i<64. bit x i"
  proof (rule ccontr)
    assume "\<not> (\<exists>i<64. bit x i)"
    then have "x = 0"
      by (intro bit_word_eqI) simp
    with assms show False by simp
  qed
  have l_le: "l \<le> 64"
    using length_takeWhile_le [of P xs] by (simp add: l_def len)
  have l_lt: "l < 64"
  proof (rule ccontr)
    assume "\<not> l < 64"
    with l_le have "l = length xs"
      by (simp add: len)
    then have "takeWhile P xs = xs"
      using takeWhile_eq_take [of P xs] by (simp add: l_def)
    then have "\<forall>y\<in>set xs. P y"
      by simp
    then have "\<forall>i<64. \<not> bit x i"
      by (simp add: xs_def P_def)
    with ex show False by blast
  qed
  have ul: "unat (clz x) = l"
    using l_le by (simp add: clz_def l_def P_def xs_def unat_of_nat)
  show "unat (clz x) \<le> 63"
    using l_lt ul by simp
  have "\<not> P (xs ! l)"
    unfolding l_def by (rule nth_length_takeWhile) (use l_lt len in \<open>simp add: l_def\<close>)
  then show "bit x (63 - unat (clz x))"
    using l_lt by (simp add: nth ul P_def)
  show "\<not> bit x i" if "63 - unat (clz x) < i" for i
  proof (cases "i < 64")
    case False
    then show ?thesis
      using bit_imp_le_length [of x i] by auto
  next
    case True
    define j where "j = 63 - i"
    have j: "j < l" "j < 64" "63 - j = i"
      using that True ul l_lt by (simp_all add: j_def)
    have "takeWhile P xs ! j \<in> set (takeWhile P xs)"
      using j(1) by (simp add: l_def)
    then have "P (takeWhile P xs ! j)"
      using set_takeWhileD by fastforce
    moreover have "takeWhile P xs ! j = xs ! j"
      using j(1) by (intro takeWhile_nth) (simp add: l_def)
    ultimately show ?thesis
      using j by (simp add: nth P_def)
  qed
qed

lemma bit_shl64: "unat n < 64 \<Longrightarrow> v AND shl64 1 n \<noteq> 0 \<longleftrightarrow> bit v (unat n)"
  by (simp add: shl64_def and_exp_eq_0_iff_not_bit)

section \<open>The encoder\<close>

lemma encode_loop_bound:
  assumes "unat n \<le> 63"
    and "length (filter (bit v) [0..<Suc (unat n)]) = unat cls"
    and "unat offset + (Suc (unat n) choose unat cls) \<le> 2 ^ 64"
  shows "\<exists>off. encode_loop v n cls offset = Some off \<and> unat offset \<le> unat off
            \<and> unat off < unat offset + (Suc (unat n) choose unat cls)"
  using assms
proof (induction v n cls offset rule: encode_loop.induct)
  case (1 v n cls offset)
  have cls_le: "unat cls \<le> Suc (unat n)"
    using length_filter_le [of "bit v" "[0..<Suc (unat n)]"] "1.prems"(2) by simp
  show ?case
  proof (cases "0 < cls \<and> cls \<le> n")
    case False
    have "encode_loop v n cls offset = Some offset"
      by (subst encode_loop.simps) (simp only: False if_False)
    moreover have "0 < Suc (unat n) choose unat cls"
      using cls_le by simp
    ultimately show ?thesis by simp
  next
    case True
    then have n0: "n \<noteq> 0" and c0: "cls \<noteq> 0"
      by auto
    have c_le_n: "unat cls \<le> unat n"
      using True by (simp add: word_le_nat_alt)
    have c_pos: "0 < unat cls"
      using c0 by (simp add: unat_gt_0)
    have n1: "unat (n - 1) = unat n - 1" and c1: "unat (cls - 1) = unat cls - 1"
      using n0 c0 by (simp_all add: unat_minus_one)
    have Sn: "Suc (unat n - 1) = unat n"
      using c_le_n c_pos by simp
    have Sn1: "Suc (unat (n - 1)) = unat n"
      using n1 Sn by simp
    obtain c' where c': "unat cls = Suc c'"
      using c_pos by (cases "unat cls") simp_all
    obtain n' where n': "unat n = Suc n'"
      using Sn by (cases "unat n") simp_all
    have pascal: "Suc (unat n) choose unat cls = (unat n choose c') + (unat n choose unat cls)"
      by (simp add: c')
    have split: "length (filter (bit v) [0..<Suc (unat n)])
        = length (filter (bit v) [0..<unat n]) + (if bit v (unat n) then 1 else 0)"
      by simp
    show ?thesis
    proof (cases "bit v (unat n)")
      case bit: True
      then have cond: "v AND shl64 1 n \<noteq> 0"
        using "1.prems"(1) by (simp add: bit_shl64)
      obtain b where b: "binomial n cls = Some b"
        using "1.prems"(1) c_le_n by (simp add: binomial_eq)
      have ub: "unat b = unat n choose unat cls"
        using "1.prems"(1) c_le_n b by (intro unat_binomial) simp_all
      have pos: "0 < unat n choose c'"
        using c_le_n c' by simp
      have sum_lt: "unat offset + unat b < 2 ^ 64"
        using "1.prems"(3) pascal ub pos by linarith
      then have uadd: "unat (offset + b) = unat offset + unat b"
        by (simp add: unat_add_lem [THEN iffD1])
      have "\<exists>off. encode_loop v (n - 1) (cls - 1) (offset + b) = Some off
            \<and> unat (offset + b) \<le> unat off
            \<and> unat off < unat (offset + b) + (Suc (unat (n - 1)) choose unat (cls - 1))"
      proof (rule "1.IH"(1) [OF True cond b])
        show "unat (n - 1) \<le> 63"
          using "1.prems"(1) n1 by simp
        show "length (filter (bit v) [0..<Suc (unat (n - 1))]) = unat (cls - 1)"
          unfolding Sn1 c1 using "1.prems"(2) bit by simp
        show "unat (offset + b) + (Suc (unat (n - 1)) choose unat (cls - 1)) \<le> 2 ^ 64"
          unfolding Sn1 c1 uadd using "1.prems"(3) pascal ub c' by simp
      qed
      then obtain off where off: "encode_loop v (n - 1) (cls - 1) (offset + b) = Some off"
        "unat (offset + b) \<le> unat off"
        "unat off < unat (offset + b) + (Suc (unat (n - 1)) choose unat (cls - 1))"
        by blast
      have "encode_loop v n cls offset = Some off"
        using True cond b off(1) by (subst encode_loop.simps) simp
      moreover have "unat offset \<le> unat off"
        using off(2) uadd by simp
      moreover have "unat off < unat offset + (Suc (unat n) choose unat cls)"
        using off(3) pascal ub c' unfolding Sn1 c1 uadd by simp
      ultimately show ?thesis by blast
    next
      case nobit: False
      then have cond: "\<not> v AND shl64 1 n \<noteq> 0"
        using "1.prems"(1) by (simp add: bit_shl64)
      have le: "unat n choose unat cls \<le> Suc (unat n) choose unat cls"
        by (rule binomial_mono_upper) simp
      have "\<exists>off. encode_loop v (n - 1) cls offset = Some off
            \<and> unat offset \<le> unat off
            \<and> unat off < unat offset + (Suc (unat (n - 1)) choose unat cls)"
      proof (rule "1.IH"(2) [OF True cond])
        show "unat (n - 1) \<le> 63"
          using "1.prems"(1) n1 by simp
        show "length (filter (bit v) [0..<Suc (unat (n - 1))]) = unat cls"
          unfolding Sn1 using "1.prems"(2) nobit by simp
        show "unat offset + (Suc (unat (n - 1)) choose unat cls) \<le> 2 ^ 64"
          unfolding Sn1 using "1.prems"(3) le by linarith
      qed
      then obtain off where off: "encode_loop v (n - 1) cls offset = Some off"
        "unat offset \<le> unat off"
        "unat off < unat offset + (Suc (unat (n - 1)) choose unat cls)"
        by blast
      have "encode_loop v n cls offset = Some off"
        using True cond off(1) by (subst encode_loop.simps) simp
      moreover have "unat off < unat offset + (Suc (unat n) choose unat cls)"
        using off(3) le unfolding Sn1 by linarith
      ultimately show ?thesis using off(2) by blast
    qed
  qed
qed

lemma encode_block_lemma:
  assumes "1 \<le> u" and "u \<le> 64" and "c \<le> u"
    and "unat v < 2 ^ unat u" and "popcount v = c"
  shows "\<exists>off b. rrr_encode_block u c v = Some off \<and> binomial u c = Some b
           \<and> unat b = unat u choose unat c
           \<and> (if 0 < c \<and> c < u then off < b else off = 0)"
proof -
  have u64: "unat u \<le> 64"
    using assms(2) by (simp add: word_le_nat_alt)
  have cu: "unat c \<le> unat u"
    using assms(3) by (simp add: word_le_nat_alt)
  have pc: "unat c = length (filter (bit v) [0..<64])"
    using assms(5) unat_popcount [of v] by simp
  obtain b where b: "binomial u c = Some b"
    using u64 cu by (simp add: binomial_eq)
  have ub: "unat b = unat u choose unat c"
    using u64 cu b by (rule unat_binomial)
  have asserts: "c_assert (0 < u) = Some ()" "c_assert (c \<le> u) = Some ()"
    "c_assert (c = popcount v) = Some ()"
    using assms by (auto simp: c_assert_def word_greater_zero_iff)
  show ?thesis
  proof (cases "c = 0 \<or> c = u")
    case True
    then have "rrr_encode_block u c v = Some 0"
      by (simp add: rrr_encode_block_def asserts)
    moreover have "(0 < c \<and> c < u) = False"
      using True by auto
    ultimately show ?thesis
      using b ub by (simp only: if_False) simp
  next
    case False
    then have c_pos: "0 < c" and c_lt: "c < u"
      using assms(3) by (auto simp: word_greater_zero_iff)
    have v0: "v \<noteq> 0"
    proof
      assume "v = 0"
      then have "popcount v = 0"
        by (simp add: popcount_def)
      with assms(5) False show False by simp
    qed
    define m where "m = 63 - unat (clz v)"
    have clz63: "unat (clz v) \<le> 63" and bitm: "bit v m"
      and above: "\<And>i. m < i \<Longrightarrow> \<not> bit v i"
      using clz_msb [OF v0] by (simp_all add: m_def)
    have un: "unat (63 - clz v) = m"
    proof -
      have "clz v \<le> 63"
        using clz63 by (simp add: word_le_nat_alt)
      then show ?thesis
        by (simp add: unat_sub m_def)
    qed
    have m_lt: "m < unat u"
      using bitm bit_above_bound [OF assms(4), of m] by (cases "m < unat u") auto
    have "filter (bit v) [0..<64] = filter (bit v) [0..<Suc m]"
      using above m_lt u64 by (intro filter_bit_upt_zero) simp_all
    then have cnt: "length (filter (bit v) [0..<Suc (unat (63 - clz v))]) = unat c"
      by (simp only: un pc)
    have "\<exists>off. encode_loop v (63 - clz v) c 0 = Some off \<and> unat (0::u64) \<le> unat off
            \<and> unat off < unat (0::u64) + (Suc (unat (63 - clz v)) choose unat c)"
    proof (rule encode_loop_bound [OF _ cnt])
      show "unat (63 - clz v) \<le> 63"
        by (simp add: un m_def)
      have "Suc m choose unat c < 2 ^ 64"
        using m_lt u64 by (intro binomial_less_2p64) simp
      then show "unat (0::u64) + (Suc (unat (63 - clz v)) choose unat c) \<le> 2 ^ 64"
        by (simp add: un)
    qed
    then obtain off where off: "encode_loop v (63 - clz v) c 0 = Some off"
      "unat off < Suc m choose unat c"
      by (auto simp: un)
    have "Suc m choose unat c \<le> unat u choose unat c"
      using m_lt by (intro binomial_mono_upper) simp
    then have "off < b"
      using off(2) ub by (simp add: word_less_nat_alt)
    moreover have "rrr_encode_block u c v = Some off"
      using False v0 off(1) by (simp add: rrr_encode_block_def asserts)
    ultimately show ?thesis
      using b ub c_pos c_lt by simp
  qed
qed

section \<open>Widths\<close>

lemma unat_lt_2p_of_high_bits_zero:
  fixes y :: u64
  assumes "\<And>i. m \<le> i \<Longrightarrow> \<not> bit y i"
  shows "unat y < 2 ^ m"
proof -
  have "take_bit m y = y"
  proof (rule bit_eqI)
    fix n
    show "bit (take_bit m y) n \<longleftrightarrow> bit y n"
      using assms [of n] by (cases "n < m") (simp_all add: bit_take_bit_iff)
  qed
  then have "unat y = take_bit m (unat y)"
    by (metis unsigned_take_bit_eq)
  then show ?thesis
    by (metis take_bit_nat_less_exp)
qed

lemma nbits_bounds:
  fixes x :: u64
  shows "unat (nbits x) \<le> 64" and "unat x \<le> 2 ^ unat (nbits x)"
    and "2 \<le> x \<Longrightarrow> 0 < unat (nbits x) \<and> 2 ^ (unat (nbits x) - 1) < unat x"
proof -
  have small: "unat x \<le> 1" if "x < 2"
    using that by (simp add: word_less_nat_alt)
  have big: "unat (nbits x) \<le> 64 \<and> unat x \<le> 2 ^ unat (nbits x)
      \<and> 0 < unat (nbits x) \<and> 2 ^ (unat (nbits x) - 1) < unat x" if "\<not> x < 2"
  proof -
    have x2: "2 \<le> unat x"
      using that by (simp add: word_less_nat_alt not_less)
    then have xn0: "x \<noteq> 0"
      by auto
    have ux1: "unat (x - 1) = unat x - 1"
      using xn0 by (simp add: unat_minus_one)
    have x1: "x - 1 \<noteq> 0"
    proof
      assume "x - 1 = 0"
      then have "unat (x - 1) = 0" by simp
      with ux1 x2 show False by simp
    qed
    define l where "l = unat (clz (x - 1))"
    have l63: "l \<le> 63" and bitm: "bit (x - 1) (63 - l)"
      and above: "\<And>i. 63 - l < i \<Longrightarrow> \<not> bit (x - 1) i"
      using clz_msb [OF x1] by (simp_all add: l_def)
    have "clz (x - 1) \<le> 64"
      using l63 by (simp add: word_le_nat_alt l_def)
    then have un: "unat (64 - clz (x - 1)) = 64 - l"
      by (simp add: unat_sub l_def)
    have hi: "unat (x - 1) < 2 ^ (64 - l)"
      using above l63 by (intro unat_lt_2p_of_high_bits_zero) simp
    have lo: "2 ^ (63 - l) \<le> unat (x - 1)"
    proof (rule ccontr)
      assume "\<not> 2 ^ (63 - l) \<le> unat (x - 1)"
      then have "unat (x - 1) < 2 ^ (63 - l)"
        by simp
      then have "\<not> bit (x - 1) (63 - l)"
        by (rule bit_above_bound) simp
      with bitm show False by simp
    qed
    have "64 - l - 1 = 63 - l"
      by simp
    moreover have "unat x \<le> 2 ^ (64 - l)"
      using hi x2 unfolding ux1 by linarith
    moreover have "2 ^ (63 - l) < unat x"
      using lo x2 unfolding ux1 by linarith
    ultimately show ?thesis
      using that l63 by (simp add: nbits_def un)
  qed
  show "unat (nbits x) \<le> 64"
    using big by (cases "x < 2") (simp_all add: nbits_def)
  show "unat x \<le> 2 ^ unat (nbits x)"
    using big small by (cases "x < 2") (simp_all add: nbits_def)
  show "0 < unat (nbits x) \<and> 2 ^ (unat (nbits x) - 1) < unat x" if "2 \<le> x"
    using big that by (simp add: not_less)
qed

lemma nbits_mono:
  fixes x y :: u64
  assumes "x \<le> y"
  shows "unat (nbits x) \<le> unat (nbits y)"
proof (cases "x < 2")
  case True
  then show ?thesis by (simp add: nbits_def)
next
  case False
  then have x2: "2 \<le> x" by (simp add: not_less)
  have "(2::nat) ^ (unat (nbits x) - 1) < unat x"
    using nbits_bounds(3) [OF x2] by simp
  also have "unat x \<le> unat y"
    using assms by (simp add: word_le_nat_alt)
  also have "unat y \<le> 2 ^ unat (nbits y)"
    by (rule nbits_bounds(2))
  finally have "unat (nbits x) - 1 < unat (nbits y)"
    by simp
  then show ?thesis by simp
qed

section \<open>Reading and writing the bit vector\<close>

lemma horner_bits_lt:
  assumes "length bs \<le> w"
  shows "unat (horner_sum of_bool 2 bs :: u64) < 2 ^ w"
  using assms by (intro unat_lt_2p_of_high_bits_zero) (simp add: bit_horner_sum_bit_word_iff)

lemma popcount_horner:
  assumes "length bs \<le> 64"
  shows "unat (popcount (horner_sum of_bool 2 bs)) = length (filter id bs)"
proof -
  define x :: u64 where "x = horner_sum of_bool 2 bs"
  have bitx: "bit x n \<longleftrightarrow> n < length bs \<and> bs ! n" if "n < 64" for n
    using that assms by (simp add: x_def bit_horner_sum_bit_word_iff)
  have "filter (bit x) [0..<64] = filter (bit x) [0..<length bs]"
    using assms bitx by (intro filter_bit_upt_zero) simp_all
  also have "\<dots> = filter (\<lambda>n. bs ! n) [0..<length bs]"
    using assms bitx by (intro filter_cong) simp_all
  finally have "length (filter (bit x) [0..<64]) = length (filter (\<lambda>n. bs ! n) [0..<length bs])"
    by simp
  also have "\<dots> = length (filter id (map (nth bs) [0..<length bs]))"
    by (simp add: filter_map comp_def)
  also have "\<dots> = length (filter id bs)"
    by (simp add: map_nth)
  finally show ?thesis
    by (simp add: unat_popcount x_def)
qed

lemma read_Some:
  assumes "i \<le> bv_size b" "w \<le> 64"
  shows "bit_vector_read b i w = Some (horner_sum of_bool 2 (take w (drop i (bv_data b))))"
  using assms by (simp add: bit_vector_read_def)

lemma read_lt:
  assumes "bit_vector_read b i w = Some x"
  shows "unat x < 2 ^ w"
  using assms by (auto simp: bit_vector_read_def split: if_splits intro: horner_bits_lt)

lemma write_Some:
  assumes "i + w \<le> bv_size b" "w \<le> 64"
  shows "\<exists>b'. bit_vector_write b i w v = Some (b', i + w)"
  using assms by (simp add: bit_vector_write_def)

lemma write_frame:
  assumes "bit_vector_write b i w v = Some (b', p)"
  shows "p = i + w" and "bv_size b' = bv_size b" and "record_nbits b' = record_nbits b"
  using assms by (auto simp: bit_vector_write_def split: if_splits)

lemma read_write_same:
  assumes "bit_vector_write b i w v = Some (b', p)"
  shows "bit_vector_read b' i w = Some (take_bit w v)"
proof -
  from assms have le: "i + w \<le> bv_size b" "w \<le> 64"
    and d: "bv_data b' = take i (bv_data b) @ map (bit v) [0..<w] @ drop (i + w) (bv_data b)"
    by (auto simp: bit_vector_write_def split: if_splits)
  have "take w (drop i (bv_data b')) = map (bit v) [0..<w]"
    using le by (simp add: d)
  moreover have "bv_size b' = bv_size b"
    using assms by (rule write_frame)
  ultimately show ?thesis
    using le by (simp add: bit_vector_read_def horner_sum_bit_eq_take_bit)
qed

lemma read_write_before:
  assumes "bit_vector_write b i w v = Some (b', p)" and "j + w' \<le> i"
  shows "bit_vector_read b' j w' = bit_vector_read b j w'"
proof -
  from assms have le: "i + w \<le> bv_size b"
    and d: "bv_data b' = take i (bv_data b) @ map (bit v) [0..<w] @ drop (i + w) (bv_data b)"
    by (auto simp: bit_vector_write_def split: if_splits)
  have "take (w' + j) (bv_data b') = take (w' + j) (bv_data b)"
    using le assms(2) by (simp add: d)
  then have "take w' (drop j (bv_data b')) = take w' (drop j (bv_data b))"
    by (simp add: take_drop)
  moreover have "bv_size b' = bv_size b"
    using assms(1) by (rule write_frame)
  ultimately show ?thesis
    by (simp add: bit_vector_read_def)
qed

lemma write_record_Some:
  assumes "bv_size b = record_nbits b * n" "k < n" "record_nbits b \<le> 64"
  shows "\<exists>b'. bit_vector_write_record b k v = Some (b', k + 1)"
proof -
  have "k * record_nbits b + record_nbits b \<le> record_nbits b * n"
    using assms(2) by (metis Suc_leI mult.commute mult_Suc mult_le_mono2 add.commute)
  then obtain b' where
    "bit_vector_write b (k * record_nbits b) (record_nbits b) v
       = Some (b', k * record_nbits b + record_nbits b)"
    using assms write_Some by (metis (no_types))
  then show ?thesis
    by (simp add: bit_vector_write_record_def)
qed

lemma write_record_frame:
  assumes "bit_vector_write_record b k v = Some (b', p)"
  shows "p = k + 1" and "bv_size b' = bv_size b" and "record_nbits b' = record_nbits b"
    and "bit_vector_read_record b' k = Some (take_bit (record_nbits b) v)"
    and "\<And>j. j < k \<Longrightarrow> bit_vector_read_record b' j = bit_vector_read_record b j"
proof -
  from assms obtain q where
    w: "bit_vector_write b (k * record_nbits b) (record_nbits b) v = Some (b', q)"
    and p: "p = k + 1"
    by (auto simp: bit_vector_write_record_def)
  show "p = k + 1" by (rule p)
  show "bv_size b' = bv_size b" and rn: "record_nbits b' = record_nbits b"
    using write_frame [OF w] by simp_all
  show "bit_vector_read_record b' k = Some (take_bit (record_nbits b) v)"
    using read_write_same [OF w] by (simp add: bit_vector_read_record_def rn)
  show "bit_vector_read_record b' j = bit_vector_read_record b j" if "j < k" for j
  proof -
    have "j * record_nbits b + record_nbits b \<le> k * record_nbits b"
      using that by (metis Suc_leI mult_Suc mult_le_mono1 add.commute)
    then show ?thesis
      using read_write_before [OF w] by (simp add: bit_vector_read_record_def rn)
  qed
qed

section \<open>The loop of the construction\<close>

lemma sint_nonneg_iff:
  fixes w :: u64
  shows "0 \<le> sint w \<longleftrightarrow> unat w < 2 ^ 63"
proof -
  have "0 \<le> sint w \<longleftrightarrow> \<not> bit w 63"
    by (simp add: sint_uint bit_uint_iff)
  also have "\<dots> \<longleftrightarrow> unat w < 2 ^ 63"
  proof
    assume nb: "\<not> bit w 63"
    have "\<not> bit w i" if "63 \<le> i" for i
      using that nb bit_imp_le_length [of w i] by (cases "i = 63") auto
    then show "unat w < 2 ^ 63"
      by (rule unat_lt_2p_of_high_bits_zero)
  next
    assume "unat w < 2 ^ 63"
    then show "\<not> bit w 63"
      by (rule bit_above_bound) simp
  qed
  finally show ?thesis .
qed

lemma marker_step:
  fixes u s need :: u64
  assumes "unat u \<le> unat s" "unat s \<le> 255" "unat need \<le> unat s"
  shows "0 \<le> sint (u - need) \<longleftrightarrow> unat need \<le> unat u"
    and "unat need \<le> unat u \<Longrightarrow> unat (s - (u - need)) = unat s - (unat u - unat need)"
    and "\<not> unat need \<le> unat u \<Longrightarrow> unat (need - u) = unat need - unat u"
proof -
  show "0 \<le> sint (u - need) \<longleftrightarrow> unat need \<le> unat u"
  proof (cases "unat need \<le> unat u")
    case True
    then have "unat (u - need) = unat u - unat need"
      by (simp add: unat_sub word_le_nat_alt)
    then have "unat (u - need) < 2 ^ 63"
      using assms by simp
    then show ?thesis
      using True by (simp add: sint_nonneg_iff)
  next
    case False
    then have "unat (u - need) = unat u + 2 ^ 64 - unat need"
      by (simp add: unat_sub_if')
    then have "\<not> unat (u - need) < 2 ^ 63"
      using assms False by simp
    then show ?thesis
      using False by (simp add: sint_nonneg_iff)
  qed
  show "unat (s - (u - need)) = unat s - (unat u - unat need)" if "unat need \<le> unat u"
  proof -
    have 1: "unat (u - need) = unat u - unat need"
      using that by (simp add: unat_sub word_le_nat_alt)
    then have "u - need \<le> s"
      using assms by (simp add: word_le_nat_alt)
    then show ?thesis
      by (simp add: unat_sub 1)
  qed
  show "unat (need - u) = unat need - unat u" if "\<not> unat need \<le> unat u"
    using that by (simp add: unat_sub word_le_nat_alt)
qed

lemma blocks_cover:
  fixes n U :: nat
  assumes "0 < U"
  shows "k < (n + U - 1) div U \<longleftrightarrow> k * U < n"
proof -
  have "k < (n + U - 1) div U \<longleftrightarrow> Suc k \<le> (n + U - 1) div U"
    by auto
  also have "\<dots> \<longleftrightarrow> Suc k * U \<le> n + U - 1"
    using assms by (simp add: less_eq_div_iff_mult_less_eq)
  also have "\<dots> \<longleftrightarrow> k * U < n"
    using assms by auto
  finally show ?thesis .
qed

lemma write_eq:
  assumes "i + w \<le> bv_size b" "w \<le> 64"
  shows "bit_vector_write b i w v = Some (bv_put b i w v, i + w)"
  using assms by (simp add: bit_vector_write_def bv_put_def)

lemma write_record_eq:
  assumes "bv_size b = record_nbits b * n" "k < n" "record_nbits b \<le> 64"
  shows "bit_vector_write_record b k v
    = Some (bv_put b (k * record_nbits b) (record_nbits b) v, k + 1)"
proof -
  have "k * record_nbits b + record_nbits b \<le> record_nbits b * n"
    using assms(2) by (metis Suc_leI mult.commute mult_Suc mult_le_mono2 add.commute)
  then show ?thesis
    using assms by (simp add: bit_vector_write_record_def write_eq)
qed

lemma bv_put_shape:
  assumes "i + w \<le> bv_size b"
  shows "bv_size (bv_put b i w v) = bv_size b" and "record_nbits (bv_put b i w v) = record_nbits b"
  using assms by (simp_all add: bv_put_def)

lemma alloc_step_inv:
  assumes stp: "alloc_setup bits u s wmax r0"
    and inv: "alloc_inv bits (unat u) (unat s) wmax r0 k st"
    and k: "k < nblocks r0"
  shows "\<exists>st' block off w. alloc_step bits u s k st = Some st'
           \<and> alloc_inv bits (unat u) (unat s) wmax r0 (Suc k) st'
           \<and> bit_vector_read_record bits k = Some block
           \<and> rrr_encode_block u (popcount block) block = Some off
           \<and> offset_nbits u (popcount block) = Some w
           \<and> classes (st_rrr st')
               = bv_put (classes (st_rrr st)) (k * record_nbits (classes (st_rrr st)))
                   (record_nbits (classes (st_rrr st))) (popcount block)
           \<and> offsets (st_rrr st')
               = bv_put (offsets (st_rrr st)) (st_offset_at st) (unat w) off
           \<and> st_offset_at st' = st_offset_at st + unat w
           \<and> st_offset_at st + unat w \<le> bv_size (offsets (st_rrr st))"
proof -
  define U where "U = unat u"
  define S where "S = unat s"
  define n where "n = bv_size bits"
  define r where "r = st_rrr st"
  define N where "N = unat (st_marker_need st)"
  define nb where "nb = nblocks r0"
  define nm where "nm = nmarkers r0"
  from stp have U1: "1 \<le> U" and U64: "U \<le> 64" and US: "U \<le> S" and S255: "S \<le> 255"
    and rb: "record_nbits bits = U" and n0: "0 < n"
    and nb: "nb = (n + U - 1) div U" and nm: "nm = (n + S - 1) div S"
    and cs: "bv_size (classes r0) = record_nbits (classes r0) * nb"
      "record_nbits (classes r0) \<le> 64"
    and os: "bv_size (offsets r0) = nb * wmax"
    and wm: "map_option (unat \<circ> nbits) (binomial u (of_nat (U div 2))) = Some wmax"
    and mrs: "bv_size (marked_ranks r0) = record_nbits (marked_ranks r0) * nm"
      "record_nbits (marked_ranks r0) \<le> 64"
    and mos: "bv_size (marked_offsets r0) = record_nbits (marked_offsets r0) * nm"
      "record_nbits (marked_offsets r0) \<le> 64"
    by (simp_all add: alloc_setup_def U_def S_def n_def nb_def nm_def)
  from inv have shape: "same_shape r r0" and ca: "st_class_at st = k"
    and oa: "st_offset_at st \<le> k * wmax" and N1: "1 \<le> N" and NS: "N \<le> S"
    and mk: "(st_marker_at st + 1) * S = k * U + N"
    and rk: "rrr_rank r = length (filter id (take (k * U) (bv_data bits)))"
    by (simp_all add: alloc_inv_def U_def S_def r_def N_def)
  have k': "k < nb"
    using k by (simp add: nb_def)
  have kU: "k * U < n"
    using k' U1 blocks_cover [of U k n] unfolding nb by simp
  txt \<open>the block and its class\<close>
  define bs where "bs = take U (drop (k * U) (bv_data bits))"
  define block :: u64 where "block = horner_sum of_bool 2 bs"
  have lbs: "length bs \<le> U"
    by (simp add: bs_def)
  have rd: "bit_vector_read_record bits k = Some block"
    using kU U64 by (simp add: bit_vector_read_record_def rb read_Some block_def bs_def n_def)
  have blt: "unat block < 2 ^ unat u"
    using lbs by (simp add: block_def U_def horner_bits_lt)
  have ucls: "unat (popcount block) = length (filter id bs)"
    using lbs U64 by (simp add: block_def popcount_horner)
  then have ucls_le: "unat (popcount block) \<le> U"
    using lbs length_filter_le [of id bs] by linarith
  have u1: "1 \<le> u" and u64: "u \<le> 64" and cu: "popcount block \<le> u"
    using U1 U64 ucls_le by (simp_all add: word_le_nat_alt U_def)
  obtain off b where enc: "rrr_encode_block u (popcount block) block = Some off"
    and b: "binomial u (popcount block) = Some b"
    and ub: "unat b = U choose unat (popcount block)"
    using encode_block_lemma [OF u1 u64 cu blt refl] by (auto simp: U_def)
  txt \<open>the writes of the class and of the offset\<close>
  have shape': "bv_size (classes r) = record_nbits (classes r) * nb"
    "record_nbits (classes r) \<le> 64" "bv_size (offsets r) = nb * wmax"
    "bv_size (marked_ranks r) = record_nbits (marked_ranks r) * nm"
    "record_nbits (marked_ranks r) \<le> 64"
    "bv_size (marked_offsets r) = record_nbits (marked_offsets r) * nm"
    "record_nbits (marked_offsets r) \<le> 64"
    using shape cs os mrs mos by (simp_all add: same_shape_def)
  have kc: "k * record_nbits (classes r) + record_nbits (classes r) \<le> bv_size (classes r)"
    using k' by (metis Suc_leI mult.commute mult_Suc mult_le_mono2 add.commute shape'(1))
  have wc: "bit_vector_write_record (classes r) k v
      = Some (bv_put (classes r) (k * record_nbits (classes r)) (record_nbits (classes r)) v, k + 1)"
    for v
    using shape'(1) k' shape'(2) by (rule write_record_eq)
  have width: "offset_nbits u (popcount block) = Some (nbits b)"
    by (simp add: offset_nbits_def b)
  have w64: "unat (nbits b) \<le> 64"
    by (rule nbits_bounds)
  have wle: "unat (nbits b) \<le> wmax"
  proof -
    from wm obtain bmax where bmax: "binomial u (of_nat (U div 2)) = Some bmax"
      and wmax: "wmax = unat (nbits bmax)"
      by auto
    have half: "unat (of_nat (U div 2) :: u64) = U div 2"
      using U64 by (simp add: unat_of_nat)
    have "unat bmax = U choose (U div 2)"
      using unat_binomial [OF _ _ bmax] U64 half by (simp add: U_def)
    then have "unat b \<le> unat bmax"
      using ub binomial_maximum [of U "unat (popcount block)"] by simp
    then have "b \<le> bmax"
      by (simp add: word_le_nat_alt)
    then show ?thesis
      unfolding wmax by (rule nbits_mono)
  qed
  have "st_offset_at st + unat (nbits b) \<le> Suc k * wmax"
    using oa wle by simp
  also have "\<dots> \<le> nb * wmax"
    using k' by (intro mult_le_mono1) simp
  finally have oin: "st_offset_at st + unat (nbits b) \<le> bv_size (offsets r)"
    by (simp add: shape')
  have wo: "bit_vector_write (offsets r) (st_offset_at st) (unat (nbits b)) v
      = Some (bv_put (offsets r) (st_offset_at st) (unat (nbits b)) v,
          st_offset_at st + unat (nbits b))" for v
    using oin w64 by (rule write_eq)
  have oa': "st_offset_at st + unat (nbits b) \<le> Suc k * wmax"
    using oa wle by simp
  txt \<open>the rank\<close>
  have rk': "rrr_rank r + unat (popcount block)
      = length (filter id (take (Suc k * U) (bv_data bits)))"
  proof -
    have "Suc k * U = k * U + U"
      by simp
    then have "take (Suc k * U) (bv_data bits) = take (k * U) (bv_data bits) @ bs"
      unfolding bs_def by (simp only: take_add)
    then show ?thesis
      by (simp add: rk ucls)
  qed
  have NS': "unat (st_marker_need st) \<le> unat s" and US': "unat u \<le> unat s"
    and S255': "unat s \<le> 255"
    using NS US S255 by (simp_all add: N_def S_def U_def)
  note ms = marker_step [OF US' S255' NS']
  show ?thesis
  proof (cases "N \<le> U")
    case True
    then have cond: "0 \<le> sint (u - st_marker_need st)"
      by (simp add: ms(1) N_def U_def)
    have need': "unat (s - (u - st_marker_need st)) = S - (U - N)"
      using True ms(2) by (simp add: N_def U_def S_def)
    have "(st_marker_at st + 1) * S \<le> Suc k * U"
      using mk True by simp
    also have "Suc k * U \<le> nb * U"
      using k' by (intro mult_le_mono1) simp
    also have "nb * U \<le> n + U - 1"
      unfolding nb by (simp add: div_times_less_eq_dividend)
    finally have "Suc (st_marker_at st) * S \<le> n + S - 1"
      using US by simp
    then have min: "st_marker_at st < nm"
      using U1 US unfolding nm by (simp add: less_eq_div_iff_mult_less_eq Suc_le_eq [symmetric])
    have kmo: "st_marker_at st * record_nbits (marked_offsets r) + record_nbits (marked_offsets r)
        \<le> bv_size (marked_offsets r)"
      using min by (metis Suc_leI mult.commute mult_Suc mult_le_mono2 add.commute shape'(6))
    have kmr: "st_marker_at st * record_nbits (marked_ranks r) + record_nbits (marked_ranks r)
        \<le> bv_size (marked_ranks r)"
      using min by (metis Suc_leI mult.commute mult_Suc mult_le_mono2 add.commute shape'(4))
    have wmo: "bit_vector_write_record (marked_offsets r) (st_marker_at st) v
        = Some (bv_put (marked_offsets r) (st_marker_at st * record_nbits (marked_offsets r))
            (record_nbits (marked_offsets r)) v, st_marker_at st + 1)" for v
      using shape'(6) min shape'(7) by (rule write_record_eq)
    have wmr: "bit_vector_write_record (marked_ranks r) (st_marker_at st) v
        = Some (bv_put (marked_ranks r) (st_marker_at st * record_nbits (marked_ranks r))
            (record_nbits (marked_ranks r)) v, st_marker_at st + 1)" for v
      using shape'(4) min shape'(5) by (rule write_record_eq)
    have a1: "1 \<le> S - (U - N)" "S - (U - N) \<le> S"
      using True N1 US by simp_all
    have a2: "(st_marker_at st + 1 + 1) * S = Suc k * U + (S - (U - N))"
      using mk True US by simp
    show ?thesis
      using cond shape kc oin kmo kmr a1 a2 oa' rk'
      by (simp add: alloc_step_def Let_def rd enc wc width wo wmo wmr
          r_def [symmetric] ca alloc_inv_def same_shape_def bv_put_shape need'
          U_def [symmetric] S_def [symmetric])
  next
    case False
    then have cond: "\<not> 0 \<le> sint (u - st_marker_need st)"
      by (simp add: ms(1) N_def U_def)
    have need': "unat (st_marker_need st - u) = N - U"
      using False ms(3) by (simp add: N_def U_def)
    have a1: "1 \<le> N - U" "N - U \<le> S"
      using False NS by simp_all
    have a2: "(st_marker_at st + 1) * S = Suc k * U + (N - U)"
      using mk False by simp
    show ?thesis
      using cond shape kc oin a1 a2 oa' rk'
      by (simp add: alloc_step_def Let_def rd enc wc width wo
          r_def [symmetric] ca alloc_inv_def same_shape_def bv_put_shape need'
          U_def [symmetric] S_def [symmetric])
  qed
qed

lemma alloc_loop_inv:
  assumes stp: "alloc_setup bits u s wmax r0"
    and inv: "alloc_inv bits (unat u) (unat s) wmax r0 k st"
    and k: "k \<le> nblocks r0"
    and Q: "Q k st"
    and Qstep: "\<And>k st st'. k < nblocks r0 \<Longrightarrow> alloc_inv bits (unat u) (unat s) wmax r0 k st
        \<Longrightarrow> Q k st \<Longrightarrow> alloc_step bits u s k st = Some st' \<Longrightarrow> Q (Suc k) st'"
  shows "\<exists>st'. alloc_loop bits u s (nblocks r0) k st = Some st'
           \<and> alloc_inv bits (unat u) (unat s) wmax r0 (nblocks r0) st' \<and> Q (nblocks r0) st'"
  using inv k Q
proof (induction "nblocks r0 - k" arbitrary: k st)
  case 0
  then have "k = nblocks r0"
    by simp
  then show ?case
    using 0 by (subst alloc_loop.simps) simp
next
  case (Suc d)
  then have k: "k < nblocks r0"
    by simp
  obtain st1 where st1: "alloc_step bits u s k st = Some st1"
    "alloc_inv bits (unat u) (unat s) wmax r0 (Suc k) st1"
    using alloc_step_inv [OF stp Suc.prems(1) k] by blast
  have Q1: "Q (Suc k) st1"
    using k Suc.prems(1) Suc.prems(3) st1(1) by (rule Qstep)
  have d: "d = nblocks r0 - Suc k"
    using Suc.hyps(2) by simp
  have "Suc k \<le> nblocks r0"
    using k by simp
  with Suc.hyps(1) [OF d st1(2) _ Q1] obtain st' where
    "alloc_loop bits u s (nblocks r0) (Suc k) st1 = Some st'"
    "alloc_inv bits (unat u) (unat s) wmax r0 (nblocks r0) st'" "Q (nblocks r0) st'"
    by blast
  then show ?case
    using k st1(1) by (subst alloc_loop.simps) simp
qed

lemma read_put_same:
  assumes "i + w \<le> bv_size b" "w \<le> 64"
  shows "bit_vector_read (bv_put b i w v) i w = Some (take_bit w v)"
  using read_write_same [OF write_eq [OF assms]] .

lemma read_put_before:
  assumes "i + w \<le> bv_size b" "w \<le> 64" "j + w' \<le> i"
  shows "bit_vector_read (bv_put b i w v) j w' = bit_vector_read b j w'"
  using read_write_before [OF write_eq [OF assms(1,2)] assms(3)] .

lemma read_resize:
  assumes "w \<le> n" "n \<le> bv_size b"
  shows "bit_vector_read (bit_vector_resize b n) 0 w = bit_vector_read b 0 w"
  using assms by (simp add: bit_vector_read_def bit_vector_resize_def min_def)

lemma take_bit_small:
  fixes x :: u64
  assumes "unat x < 2 ^ n"
  shows "take_bit n x = x"
proof (rule unsigned_word_eqI [where ?'a = nat])
  show "unat (take_bit n x) = unat x"
    using assms by (simp add: unsigned_take_bit_eq take_bit_nat_eq_self)
qed

lemma unat_take_bit_le:
  fixes x :: u64
  shows "unat (take_bit n x) \<le> unat x"
  by (simp add: unsigned_take_bit_eq)

lemma first_block_step:
  assumes stp: "alloc_setup bits u s wmax r0"
    and k: "k < nblocks r0"
    and inv: "alloc_inv bits (unat u) (unat s) wmax r0 k st"
    and Q: "first_block_inv bits u k st"
    and step: "alloc_step bits u s k st = Some st'"
  shows "first_block_inv bits u (Suc k) st'"
proof -
  define rn where "rn = record_nbits (classes (st_rrr st))"
  from alloc_step_inv [OF stp inv k] step obtain block off w where
    inv': "alloc_inv bits (unat u) (unat s) wmax r0 (Suc k) st'"
    and rd: "bit_vector_read_record bits k = Some block"
    and enc: "rrr_encode_block u (popcount block) block = Some off"
    and wd: "offset_nbits u (popcount block) = Some w"
    and cl: "classes (st_rrr st') = bv_put (classes (st_rrr st)) (k * rn) rn (popcount block)"
    and os: "offsets (st_rrr st') = bv_put (offsets (st_rrr st)) (st_offset_at st) (unat w) off"
    and oa: "st_offset_at st' = st_offset_at st + unat w"
    and oin: "st_offset_at st + unat w \<le> bv_size (offsets (st_rrr st))"
    by (auto simp: rn_def)
  from stp inv k have csz: "bv_size (classes (st_rrr st)) = rn * nblocks r0" and rn64: "rn \<le> 64"
    by (simp_all add: alloc_setup_def alloc_inv_def same_shape_def rn_def)
  have kin: "k * rn + rn \<le> bv_size (classes (st_rrr st))"
    using k by (metis Suc_leI mult.commute mult_Suc mult_le_mono2 add.commute csz)
  have rn': "record_nbits (classes (st_rrr st')) = rn"
    using kin by (simp add: cl bv_put_shape rn_def)
  have w64: "unat w \<le> 64"
    using wd nbits_bounds(1) by (auto simp: offset_nbits_def)
  have rr: "bit_vector_read_record (classes (st_rrr st')) 0
      = bit_vector_read (bv_put (classes (st_rrr st)) (k * rn) rn (popcount block)) 0 rn"
    by (simp add: bit_vector_read_record_def rn') (simp only: cl)
  have rr0: "bit_vector_read_record (classes (st_rrr st)) 0
      = bit_vector_read (classes (st_rrr st)) 0 rn"
    by (simp add: bit_vector_read_record_def rn_def)
  show ?thesis
  proof (cases "k = 0")
    case True
    from inv True have o0: "st_offset_at st = 0"
      by (simp add: alloc_inv_def)
    have "bit_vector_read_record (classes (st_rrr st')) 0 = Some (take_bit rn (popcount block))"
      using kin rn64 True by (simp add: rr read_put_same)
    moreover have "bit_vector_read (offsets (st_rrr st')) 0 (unat w) = Some (take_bit (unat w) off)"
      using oin w64 o0 by (simp add: os read_put_same)
    ultimately show ?thesis
      using rd enc wd oa True by (auto simp: first_block_inv_def rn')
  next
    case False
    with Q obtain block0 off0 w0 where
      f: "bit_vector_read_record bits 0 = Some block0"
      "rrr_encode_block u (popcount block0) block0 = Some off0"
      "offset_nbits u (popcount block0) = Some w0"
      "unat w0 \<le> st_offset_at st"
      "bit_vector_read_record (classes (st_rrr st)) 0 = Some (take_bit rn (popcount block0))"
      "bit_vector_read (offsets (st_rrr st)) 0 (unat w0) = Some (take_bit (unat w0) off0)"
      by (auto simp: first_block_inv_def rn_def)
    have "rn \<le> k * rn"
      using False by simp
    then have "bit_vector_read_record (classes (st_rrr st')) 0
        = bit_vector_read_record (classes (st_rrr st)) 0"
      using kin rn64 by (simp add: rr rr0 read_put_before)
    moreover have "bit_vector_read (offsets (st_rrr st')) 0 (unat w0)
        = bit_vector_read (offsets (st_rrr st)) 0 (unat w0)"
      using oin w64 f(4) by (simp add: os read_put_before)
    ultimately show ?thesis
      using f oa by (auto simp: first_block_inv_def rn')
  qed
qed

lemma rrr_alloc_facts:
  fixes u s :: u8
  assumes n0: "0 < bv_size bits" and u1: "1 \<le> unat u" and u64: "unat u \<le> 64"
    and us: "unat u \<le> unat s"
  shows "\<exists>r. rrr_alloc bits u s = Some (r, bits)
     \<and> rrr_size r = bv_size bits \<and> block_nbits r = unat u \<and> marker_nbits r = unat s
     \<and> nblocks r = (bv_size bits + unat u - 1) div unat u
     \<and> nmarkers r = (bv_size bits + unat s - 1) div unat s
     \<and> rrr_rank r = length (filter id (bv_data bits))
     \<and> bv_size (marked_ranks r) = record_nbits (marked_ranks r) * nmarkers r
     \<and> record_nbits (marked_ranks r) \<le> 64
     \<and> (\<exists>c w off b. bit_vector_read_record (classes r) 0 = Some c
           \<and> offset_nbits (of_nat (unat u)) c = Some w
           \<and> bit_vector_read (offsets r) 0 (unat w) = Some off
           \<and> binomial (of_nat (unat u)) c = Some b \<and> off < b)"
proof -
  define U where "U = unat u"
  define S where "S = unat s"
  define u' :: u64 where "u' = of_nat U"
  define s' :: u64 where "s' = of_nat S"
  define n where "n = bv_size bits"
  define nb where "nb = (n + U - 1) div U"
  define nm where "nm = (n + S - 1) div S"
  have S255: "S \<le> 255"
    using unsigned_less [of s, where ?'a = nat] by (simp add: S_def)
  have U1: "1 \<le> U" and U64: "U \<le> 64" and US: "U \<le> S"
    using u1 u64 us by (simp_all add: U_def S_def)
  have uu: "unat u' = U" "unat s' = S"
    using U64 S255 by (simp_all add: u'_def s'_def unat_of_nat)
  have half: "unat (of_nat (U div 2) :: u64) = U div 2"
    using U64 by (simp add: unat_of_nat)
  obtain bmax where bmax: "binomial u' (of_nat (U div 2)) = Some bmax"
    using U64 by (simp add: binomial_eq uu half)
  define wmax where "wmax = unat (nbits bmax)"
  define cs where "cs = bit_vector_alloc_record (unat (nbits (u' + 1))) nb"
  define os where "os = bit_vector_alloc (nb * wmax)"
  define mr where "mr = bit_vector_alloc_record (unat (nbits (of_nat n + 1))) nm"
  define mo where "mo = bit_vector_alloc_record (unat (nbits (of_nat (bv_size os)))) nm"
  define r0 where "r0 = \<lparr>rrr_size = n, rrr_rank = 0, nblocks = nb, nmarkers = nm,
     block_nbits = U, marker_nbits = S, classes = cs, offsets = os,
     marked_ranks = mr, marked_offsets = mo\<rparr>"
  define bits1 where "bits1 = bits\<lparr>record_nbits := U\<rparr>"
  define st0 where "st0 = \<lparr>st_rrr = r0, st_class_at = 0, st_offset_at = 0, st_marker_at = 0,
     st_marker_need = s'\<rparr>"
  have nbr: "nblocks r0 = nb"
    by (simp add: r0_def)
  have stp: "alloc_setup bits1 u' s' wmax r0"
    using U1 U64 US S255 n0
    by (simp add: alloc_setup_def uu bits1_def r0_def cs_def os_def mr_def mo_def nb_def nm_def
        n_def bit_vector_alloc_record_def bit_vector_alloc_def nbits_bounds(1) bmax wmax_def)
  have inv0: "alloc_inv bits1 (unat u') (unat s') wmax r0 0 st0"
    using U1 US by (simp add: alloc_inv_def same_shape_def st0_def r0_def uu)
  have Q0: "first_block_inv bits1 u' 0 st0"
    by (simp add: first_block_inv_def)
  have "\<exists>st. alloc_loop bits1 u' s' (nblocks r0) 0 st0 = Some st
      \<and> alloc_inv bits1 (unat u') (unat s') wmax r0 (nblocks r0) st
      \<and> first_block_inv bits1 u' (nblocks r0) st"
  proof (rule alloc_loop_inv [where Q = "first_block_inv bits1 u'", OF stp inv0 _ Q0])
    show "0 \<le> nblocks r0"
      by simp
    show "first_block_inv bits1 u' (Suc k) st'"
      if "k < nblocks r0" "alloc_inv bits1 (unat u') (unat s') wmax r0 k st"
        "first_block_inv bits1 u' k st" "alloc_step bits1 u' s' k st = Some st'"
      for k st st'
      using stp that by (rule first_block_step)
  qed
  then obtain st where loop: "alloc_loop bits1 u' s' nb 0 st0 = Some st"
    and invn: "alloc_inv bits1 (unat u') (unat s') wmax r0 nb st"
    and Qn: "first_block_inv bits1 u' nb st"
    by (auto simp: nbr)
  define r where "r = (st_rrr st)\<lparr>offsets := bit_vector_resize (offsets (st_rrr st)) (st_offset_at st)\<rparr>"
  have asserts: "u \<le> s" "u \<noteq> 0"
    using us u1 by (auto simp: word_le_nat_alt)
  have alloc: "rrr_alloc bits u s = Some (r, bits)"
    using loop n0 u64 asserts bmax
    by (simp add: rrr_alloc_def c_assert_def MAX_BLOCK_NBITS_def Let_def offset_nbits_def
        r_def st0_def r0_def bits1_def cs_def os_def mr_def mo_def nb_def nm_def n_def
        u'_def s'_def U_def S_def wmax_def)
  from invn have shape: "same_shape (st_rrr st) r0"
    and rk: "rrr_rank (st_rrr st) = length (filter id (take (nb * U) (bv_data bits1)))"
    and oan: "st_offset_at st \<le> nb * wmax"
    by (simp_all add: alloc_inv_def uu)
  have nb1: "1 \<le> nb"
    using blocks_cover [of U 0 n] U1 n0 by (simp add: nb_def n_def)
  have "\<not> nb * U < n"
    using blocks_cover [of U nb n] U1 by (simp add: nb_def)
  then have rank: "rrr_rank r = length (filter id (bv_data bits))"
    by (simp add: r_def rk bits1_def n_def)
  from Qn nb1 obtain block off w where
    f: "bit_vector_read_record bits1 0 = Some block"
      "rrr_encode_block u' (popcount block) block = Some off"
      "offset_nbits u' (popcount block) = Some w"
      "unat w \<le> st_offset_at st"
      "bit_vector_read_record (classes (st_rrr st)) 0
         = Some (take_bit (record_nbits (classes (st_rrr st))) (popcount block))"
      "bit_vector_read (offsets (st_rrr st)) 0 (unat w) = Some (take_bit (unat w) off)"
    by (auto simp: first_block_inv_def)
  txt \<open>the class of block 0 fits its record\<close>
  have blt: "unat block < 2 ^ unat u'"
    using f(1) read_lt [of bits1 0 U block]
    by (simp add: bit_vector_read_record_def bits1_def uu)
  have pc_le: "unat (popcount block) \<le> U"
  proof -
    have "unat (popcount block) = length (filter (bit block) [0..<U])"
      using blt U64 by (simp add: unat_popcount uu filter_bit_upt_high [of block U 64])
    then show ?thesis
      using length_filter_le [of "bit block" "[0..<U]"] by simp
  qed
  have rnc: "record_nbits (classes (st_rrr st)) = unat (nbits (u' + 1))"
    using shape by (simp add: same_shape_def r0_def cs_def bit_vector_alloc_record_def)
  have "unat (u' + 1) = U + 1"
    using U64 uu by (simp add: unat_word_ariths)
  then have "U + 1 \<le> 2 ^ unat (nbits (u' + 1))"
    using nbits_bounds(2) [of "u' + 1"] by simp
  then have "unat (popcount block) < 2 ^ unat (nbits (u' + 1))"
    using pc_le by simp
  then have c0: "bit_vector_read_record (classes r) 0 = Some (popcount block)"
    using f(5) by (simp add: r_def rnc take_bit_small)
  txt \<open>the offset of block 0 is below the binomial coefficient\<close>
  have cu: "popcount block \<le> u'" and u'1: "1 \<le> u'" and u'64: "u' \<le> 64"
    using pc_le U1 U64 by (simp_all add: word_le_nat_alt uu)
  from encode_block_lemma [OF u'1 u'64 cu blt refl] f(2) obtain b where
    b: "binomial u' (popcount block) = Some b" "unat b = unat u' choose unat (popcount block)"
    and ob: "if 0 < popcount block \<and> popcount block < u' then off < b else off = 0"
    by auto
  have "0 < unat b"
    using b(2) pc_le by (simp add: uu)
  then have "0 < b"
    by (simp add: word_less_nat_alt)
  with ob have "off < b"
    by (auto split: if_splits)
  then have "take_bit (unat w) off < b"
    using unat_take_bit_le [of "unat w" off] by (simp add: word_less_nat_alt)
  moreover have "bit_vector_read (offsets r) 0 (unat w) = Some (take_bit (unat w) off)"
  proof -
    have "st_offset_at st \<le> bv_size (offsets (st_rrr st))"
      using shape oan by (simp add: same_shape_def r0_def os_def bit_vector_alloc_def)
    then show ?thesis
      using f(4) f(6) by (simp add: r_def read_resize)
  qed
  ultimately have first: "\<exists>c w off b. bit_vector_read_record (classes r) 0 = Some c
           \<and> offset_nbits u' c = Some w
           \<and> bit_vector_read (offsets r) 0 (unat w) = Some off
           \<and> binomial u' c = Some b \<and> off < b"
    using c0 f(3) b(1) by blast
  have "bv_size (marked_ranks r) = record_nbits (marked_ranks r) * nmarkers r"
    "record_nbits (marked_ranks r) \<le> 64"
    using shape by (simp_all add: r_def same_shape_def r0_def mr_def bit_vector_alloc_record_def
        nbits_bounds(1))
  moreover have "rrr_size r = bv_size bits" "block_nbits r = unat u" "marker_nbits r = unat s"
    "nblocks r = (bv_size bits + unat u - 1) div unat u"
    "nmarkers r = (bv_size bits + unat s - 1) div unat s"
    using shape by (simp_all add: r_def same_shape_def r0_def n_def nb_def nm_def U_def S_def)
  ultimately show ?thesis
    using alloc rank first by (simp add: u'_def U_def)
qed

section \<open>The offset of a block\<close>

text \<open>
  Claim C7. For a block width \<open>u\<close> from 1 to 64, a class \<open>c \<le> u\<close> and a \<open>u\<close>-bit value
  \<open>v\<close> with \<open>c\<close> 1-bits, \<^verbatim>\<open>rrr_encode_block\<close> passes its assertions and returns an
  offset below the table entry \<^verbatim>\<open>binomial[u][c]\<close>, which is the binomial coefficient
  \<open>C(u, c)\<close>, when \<open>0 < c < u\<close>, and returns 0 when \<open>c = 0\<close> or \<open>c = u\<close>; in both cases
  the offset fits in the \<^verbatim>\<open>offset_nbits(u, c)\<close> bits of its field.
\<close>

theorem encode_block_bound:
  assumes "1 \<le> u" and "u \<le> 64" and "c \<le> u"
    and "unat v < 2 ^ unat u" and "popcount v = c"
  shows "\<exists>off b w. rrr_encode_block u c v = Some off \<and> binomial u c = Some b
           \<and> unat b = unat u choose unat c
           \<and> (if 0 < c \<and> c < u then off < b else off = 0)
           \<and> offset_nbits u c = Some w \<and> unat off < 2 ^ unat w"
proof -
  from encode_block_lemma [OF assms] obtain off b where
    e: "rrr_encode_block u c v = Some off" "binomial u c = Some b"
      "unat b = unat u choose unat c"
      "if 0 < c \<and> c < u then off < b else off = 0"
    by blast
  have "0 < unat b"
    using e(3) assms(3) by (simp add: word_le_nat_alt)
  then have "unat off < unat b"
    using e(4) by (auto simp: word_less_nat_alt split: if_splits)
  also have "unat b \<le> 2 ^ unat (nbits b)"
    by (rule nbits_bounds)
  finally have "unat off < 2 ^ unat (nbits b)" .
  moreover have "offset_nbits u c = Some (nbits b)"
    by (simp add: offset_nbits_def e(2))
  ultimately show ?thesis
    using e by blast
qed

text \<open>The theorem at block width 5, class 2 and the value 01100.\<close>

theorem encode_block_bound_witness:
  "(1::u64) \<le> 5 \<and> (5::u64) \<le> 64 \<and> (2::u64) \<le> 5 \<and> unat (12::u64) < 2 ^ unat (5::u64)
     \<and> popcount 12 = 2
     \<and> (\<exists>off b w. rrr_encode_block 5 2 12 = Some off \<and> binomial 5 2 = Some b
           \<and> unat b = unat (5::u64) choose unat (2::u64)
           \<and> (if (0::u64) < 2 \<and> (2::u64) < 5 then off < b else off = 0)
           \<and> offset_nbits 5 2 = Some w \<and> unat off < 2 ^ unat w)"
proof -
  have h: "(1::u64) \<le> 5" "(5::u64) \<le> 64" "(2::u64) \<le> 5"
    "unat (12::u64) < 2 ^ unat (5::u64)" "popcount 12 = 2"
    by code_simp+
  show ?thesis
    using h encode_block_bound [OF h] by simp
qed

section \<open>The input vector after the construction\<close>

text \<open>
  Claim C10. For an input of \<open>n > 0\<close> bits (\<open>n < 2^32\<close>), a block width from 1 to 64 and
  a marker period not below it, \<^verbatim>\<open>rrr_alloc\<close> passes every assertion, stays within its
  vectors and returns; the input vector it returns with is the one it was given, record
  width and bits. (The loop reads the input through a copy whose record width is the
  block width.)
\<close>

theorem alloc_restores_input:
  fixes u s :: u8
  assumes "0 < bv_size bits" and "bv_size bits < 2 ^ 32"
    and "1 \<le> u" and "u \<le> 64" and "u \<le> s"
  shows "\<exists>r. rrr_alloc bits u s = Some (r, bits)"
proof -
  have "1 \<le> unat u" "unat u \<le> 64" "unat u \<le> unat s"
    using assms(3-5) by (simp_all add: word_le_nat_alt)
  with assms(1) rrr_alloc_facts [of bits u s] show ?thesis
    by blast
qed

text \<open>The theorem at the input of scenario S1.\<close>

theorem alloc_restores_input_witness:
  "0 < bv_size S1_bits \<and> bv_size S1_bits < 2 ^ 32 \<and> (1::u8) \<le> 3 \<and> (3::u8) \<le> 64
     \<and> (3::u8) \<le> 3 \<and> (\<exists>r. rrr_alloc S1_bits 3 3 = Some (r, S1_bits))"
proof -
  have h: "0 < bv_size S1_bits" "bv_size S1_bits < 2 ^ 32" "(1::u8) \<le> 3" "(3::u8) \<le> 64"
    "(3::u8) \<le> 3"
    by (simp_all add: S1_bits_def)
  show ?thesis
    using h alloc_restores_input [OF h] by simp
qed

section \<open>Scenario S1\<close>

text \<open>
  Claim C8. For the input 11010010 (length 8, bit 0 written first) with block width 3
  and marker period 3, construction succeeds; the classes are 2, 1, 1 and the rank is
  4; \<^verbatim>\<open>rrr_rank1\<close> at 0..8 is 0, 1, 2, 2, 3, 3, 3, 4, 4; \<^verbatim>\<open>rrr_select1\<close> at 1..4 is 1, 2, 4, 7;
  \<^verbatim>\<open>rrr_access\<close> at 0..7 is 1, 1, 0, 1, 0, 0, 1, 0.
\<close>

theorem scenario_S1:
  "case rrr_alloc S1_bits 3 3 of None \<Rightarrow> False
   | Some (r, b) \<Rightarrow>
       map (bit_vector_read_record (classes r)) [0, 1, 2] = [Some 2, Some 1, Some 1]
     \<and> rrr_rank r = 4
     \<and> map (rrr_rank1 r) [0, 1, 2, 3, 4, 5, 6, 7, 8]
         = [Some 0, Some 1, Some 2, Some 2, Some 3, Some 3, Some 3, Some 4, Some 4]
     \<and> map (rrr_select1 r) [1, 2, 3, 4] = [Some 1, Some 2, Some 4, Some 7]
     \<and> map (rrr_access r) [0, 1, 2, 3, 4, 5, 6, 7]
         = [Some 1, Some 1, Some 0, Some 1, Some 0, Some 0, Some 1, Some 0]"
  by code_simp

section \<open>Markers that fall inside a block\<close>

text \<open>
  Claim C1, evaluated at the input 011001 with block width 2 and marker period 3. The
  first marker boundary, bit 3, lies inside block 1. \<^verbatim>\<open>rrr_alloc\<close> stores for it the
  offset position after block 1, and \<^verbatim>\<open>rrr_access\<close> resumes at block 1 with that
  position, so it decodes block 1 from the offset of block 2: bit 3 of the input is 0
  and \<^verbatim>\<open>rrr_access\<close> returns 1.
\<close>

theorem access_unaligned_marker:
  "case rrr_alloc unaligned_bits 2 3 of None \<Rightarrow> False
   | Some (r, b) \<Rightarrow> bv_data unaligned_bits ! 3 = False \<and> rrr_access r 3 = Some 1"
  by code_simp

text \<open>
  Claim C2, evaluated at the input 111111 with block width 2 and marker period 3. The
  rank stored for the boundary at bit 3 already counts the first bit of block 1, and
  \<^verbatim>\<open>rrr_rank1\<close> resumes at block 1 and counts that bit again: there are three 1-bits
  before position 3 and \<^verbatim>\<open>rrr_rank1\<close> returns 4.
\<close>

theorem rank1_unaligned_marker:
  "case rrr_alloc ones6_bits 2 3 of None \<Rightarrow> False
   | Some (r, b) \<Rightarrow>
       length (filter id (take 3 (bv_data ones6_bits))) = 3 \<and> rrr_rank1 r 3 = Some 4"
  by code_simp

section \<open>The block of 64 ones\<close>

text \<open>
  Claim C3, evaluated at block width 64, class 64 and the value of 64 ones. The
  encoder returns 0. The decoder skips its loop and computes \<^verbatim>\<open>(1ULL << 64) - 1\<close> for the
  remaining 64 ones, a shift by the full width: with the count taken modulo 64 the
  result is 0, not the 64 ones that were encoded.
\<close>

theorem decode_full_block_64:
  "rrr_encode_block 64 64 (- 1) = Some 0 \<and> rrr_decode_block 64 64 0 = Some 0"
  by code_simp

section \<open>The binary search of the markers\<close>

text \<open>
  Claim C4, evaluated at the input 101110 with block width 2 and marker period 2, where
  the stored ranks are 1, 3, 4, and \<open>j = 2\<close>. The search ends on a marker whose rank is
  below \<open>j\<close>; the loop condition has then overwritten \<^verbatim>\<open>k\<close> with
  \<^verbatim>\<open>lo + (hi - lo) / 2\<close> for \<^verbatim>\<open>hi = lo - 1\<close>, and \<^verbatim>\<open>rrr_find_marker\<close> returns \<open>2^63 + 1\<close>
  for an instance of three markers. \<^verbatim>\<open>rrr_select1\<close> then reads marker \<open>2^63\<close>, outside
  the marker vectors, and yields no position; the second 1-bit is at position 3.
\<close>

theorem select1_find_marker:
  "case rrr_alloc search_bits 2 2 of None \<Rightarrow> False
   | Some (r, b) \<Rightarrow>
       rrr_rank r = 4 \<and> nmarkers r = 3
     \<and> rrr_find_marker r 2 = Some 9223372036854775809
     \<and> rrr_select1 r 2 = None"
proof -
  have "case rrr_alloc search_bits 2 2 of None \<Rightarrow> False
   | Some (r, b) \<Rightarrow>
       rrr_rank r = 4 \<and> nmarkers r = 3
     \<and> rrr_find_marker r 2 = Some 9223372036854775809
     \<and> marker_nbits r = 2 \<and> block_nbits r = 2
     \<and> bv_size (marked_offsets r) = 6 \<and> record_nbits (marked_offsets r) = 2"
    by code_simp
  then show ?thesis
    by (auto split: option.splits
        simp: rrr_select1_def c_div_def bit_vector_read_record_def bit_vector_read_def)
qed

section \<open>The marker of the last, partial window\<close>

text \<open>
  Claim C5, evaluated at the input 11111 with block width 2 and marker period 7. There
  is one marker, for the window that ends at bit 7; no block crosses that boundary, so
  the loop of \<^verbatim>\<open>rrr_alloc\<close> never writes it, and it still holds the 0 of the
  allocation, while the rank of the input at 7, clamped to its length, is 5.
\<close>

theorem last_marker_not_written:
  "case rrr_alloc ones5_bits 2 7 of None \<Rightarrow> False
   | Some (r, b) \<Rightarrow>
       nmarkers r = 1 \<and> rrr_rank r = 5
     \<and> bit_vector_read_record (marked_ranks r) 0 = Some 0
     \<and> rrr_rank1 r 7 = Some 5"
  by code_simp

end
